theory Spec2Isabelle
  imports Complex_Main "HOL-Library.AList"
begin

section \<open>Tokens and errors (Lexer.hpp, BSONParser.cpp)\<close>

text \<open>
  The C++ implementation (cpp-bson) is embedded.  \<open>TokenType\<close> and \<open>Token\<close> are the enum and the
  struct of Lexer.hpp.  The \<open>int\<close> fields \<open>line\<close> and \<open>level\<close> only ever hold the non-negative
  values the lexer computes (a line counter, \<open>indentCount / 4\<close>, the stages 1, 2, 3), so they are
  natural numbers here; where the parser subtracts from a level the subtraction is done on
  integers, as in the source.  Contents are taken to be shorter than \<open>2\<^sup>3\<^sup>1\<close> characters, so that
  neither counter overflows.
\<close>

datatype TokenType =
    TOKEN_HEADER | TOKEN_INDENT | TOKEN_SECTION_OPEN | TOKEN_SECTION_CLOSE
  | TOKEN_IDENTIFIER | TOKEN_VINE_WHIP | TOKEN_STRING | TOKEN_NUMBER | TOKEN_BOOL
  | TOKEN_NULL | TOKEN_ARRAY_START | TOKEN_ARRAY_END | TOKEN_COMMA | TOKEN_EOF

record Token =
  type :: TokenType
  literal :: string
  line :: nat
  level :: nat

text \<open>The brace initialiser \<^verbatim>\<open>{type, literal, lineNum, level}\<close> of the source.\<close>

definition mkToken :: "TokenType \<Rightarrow> string \<Rightarrow> nat \<Rightarrow> nat \<Rightarrow> Token" where
  "mkToken ty lit lno lv = \<lparr>type = ty, literal = lit, line = lno, level = lv\<rparr>"

text \<open>
  Every failure of the source is a \<^verbatim>\<open>std::runtime_error\<close> that differs from the others only in
  its message; \<open>what\<close> gives the message of each kind.
\<close>

datatype error =
    HeaderError | TabError | IndentationError | SyntaxError | TypeError | BadgesError
  | ReservedKeyError

fun what :: "error \<Rightarrow> string" where
  "what HeaderError = ''Status: Fainted''"
| "what TabError = ''Poison Type: Tab character detected''"
| "what IndentationError = ''The attack missed!''"
| "what SyntaxError = ''It hurt itself in its confusion!''"
| "what TypeError = ''Target is immune!''"
| "what BadgesError = ''Not enough badges!''"
| "what ReservedKeyError = ''It burns the bulb''"

section \<open>String helpers of the lexer (Lexer.cpp)\<close>

text \<open>\<^verbatim>\<open>std::isspace\<close> in the "C" locale: space, \<^verbatim>\<open>\t \n \v \f \r\<close>.\<close>

definition isspace :: "char \<Rightarrow> bool" where
  "isspace c \<longleftrightarrow> c \<in> set [CHR '' '', CHR 0x09, CHR 0x0A, CHR 0x0B, CHR 0x0C, CHR 0x0D]"

definition isdigit :: "char \<Rightarrow> bool" where
  "isdigit c \<longleftrightarrow> c \<in> set ''0123456789''"

text \<open>The character class \<^verbatim>\<open>[a-zA-Z0-9_]\<close> of the key/value regular expression.\<close>

definition isIdentChar :: "char \<Rightarrow> bool" where
  "isIdentChar c \<longleftrightarrow>
     c \<in> set ''abcdefghijklmnopqrstuvwxyzABCDEFGHIJKLMNOPQRSTUVWXYZ0123456789_''"

text \<open>\<open>Lexer::trim\<close>: the text between the first and the last character that is not a space or a tab.\<close>

definition isBlank :: "char \<Rightarrow> bool" where
  "isBlank c \<longleftrightarrow> c = CHR '' '' \<or> c = CHR 0x09"

definition trim :: "string \<Rightarrow> string" where
  "trim str = rev (dropWhile isBlank (rev (dropWhile isBlank str)))"

definition startsWith :: "string \<Rightarrow> string \<Rightarrow> bool" where
  "startsWith str prefix \<longleftrightarrow>
     length str \<ge> length prefix \<and> take (length prefix) str = prefix"

definition endsWith :: "string \<Rightarrow> string \<Rightarrow> bool" where
  "endsWith str suffix \<longleftrightarrow>
     length str \<ge> length suffix \<and> drop (length str - length suffix) str = suffix"

text \<open>
  \<^verbatim>\<open>str.substr(pos, str.length() - k)\<close>, the only shape in which the lexer cuts a delimited
  text.  The count is a \<^verbatim>\<open>size_t\<close>: when the text is shorter than \<open>k\<close> the subtraction wraps
  around to a number above the length of any string, and \<^verbatim>\<open>substr\<close> then returns the whole
  tail from \<open>pos\<close>.  (\<open>pos\<close> never exceeds the length at the call sites, so \<^verbatim>\<open>substr\<close> does not
  throw.)
\<close>

definition substr_minus :: "string \<Rightarrow> nat \<Rightarrow> nat \<Rightarrow> string" where
  "substr_minus str pos k =
     (if k \<le> length str then take (length str - k) (drop pos str) else drop pos str)"

text \<open>\<^verbatim>\<open>line.find("zZz")\<close>: the first position where the marker starts, if any.\<close>

fun str_find :: "string \<Rightarrow> string \<Rightarrow> nat option" where
  "str_find [] pat = (if pat = [] then Some 0 else None)"
| "str_find (c # cs) pat =
     (if startsWith (c # cs) pat then Some 0
      else (case str_find cs pat of None \<Rightarrow> None | Some n \<Rightarrow> Some (Suc n)))"

text \<open>
  One call of \<^verbatim>\<open>std::getline(ss, line, delim)\<close> on the unread rest \<open>ss\<close> of a string stream: it
  fails (\<open>None\<close>) when nothing is left, and otherwise yields the text before the first delimiter
  and the rest after it (the delimiter is consumed; without a delimiter everything is read).
\<close>

definition getline :: "string \<Rightarrow> char \<Rightarrow> (string \<times> string) option" where
  "getline ss delim =
     (if ss = [] then None
      else Some (takeWhile (\<lambda>c. c \<noteq> delim) ss, drop 1 (dropWhile (\<lambda>c. c \<noteq> delim) ss)))"

section \<open>Numeric conversions of the standard library\<close>

text \<open>
  \<^verbatim>\<open>std::stoi(s, &pos)\<close> is \<^verbatim>\<open>strtol\<close> in base 10 followed by a range check: leading white space
  is skipped, an optional sign and the longest run of digits are read; it throws
  (\<^verbatim>\<open>invalid_argument\<close>) when there is no digit and (\<^verbatim>\<open>out_of_range\<close>) when the value does not
  fit a 32-bit \<^verbatim>\<open>int\<close>.  Both exceptions are caught by the same \<^verbatim>\<open>catch (...)\<close> at every call
  site, so both are \<open>None\<close>.  On success the value and \<open>pos\<close>, the number of characters
  consumed, are returned.
\<close>

definition digit_val :: "char \<Rightarrow> nat" where
  "digit_val c = length (takeWhile (\<lambda>d. d \<noteq> c) ''0123456789'')"

definition digits_val :: "string \<Rightarrow> nat" where
  "digits_val ds = foldl (\<lambda>acc c. 10 * acc + digit_val c) 0 ds"

definition isSign :: "char \<Rightarrow> bool" where
  "isSign c \<longleftrightarrow> c = CHR ''+'' \<or> c = CHR ''-''"

definition stoi :: "string \<Rightarrow> (int \<times> nat) option" where
  "stoi s =
     (let ws = takeWhile isspace s;
          r1 = dropWhile isspace s;
          sign = take 1 (takeWhile isSign r1);
          r2 = drop (length sign) r1;
          ds = takeWhile isdigit r2;
          v = (if sign = ''-'' then - int (digits_val ds) else int (digits_val ds))
      in if ds = [] then None
         else if v < - 2147483648 \<or> 2147483647 < v then None
         else Some (v, length ws + length sign + length ds))"

text \<open>
  \<^verbatim>\<open>std::stod\<close> is \<^verbatim>\<open>strtod\<close>, whose result is a binary64 floating-point number and whose range
  errors depend on the C library.  The lexer and the parser below therefore take the conversion as
  a parameter \<open>sd\<close>: \<open>sd s = None\<close> when \<^verbatim>\<open>std::stod(s, &pos)\<close> throws, and \<open>Some (d, pos)\<close> when it
  returns \<open>d\<close> having consumed \<open>pos\<close> characters.  Every general theorem holds for any such
  function.  For closed evaluations the model \<open>stod\<close> is used: the syntax accepted by \<^verbatim>\<open>strtod\<close> in
  the "C" locale (white space, sign, then a decimal or hexadecimal floating literal, or
  \<^verbatim>\<open>inf\<close>, \<^verbatim>\<open>infinity\<close>, \<^verbatim>\<open>nan\<close>, \<^verbatim>\<open>nan(...)\<close> in any case), a finite result being represented by the
  exact rational the literal denotes (the binary64 number is its rounding), and \<^verbatim>\<open>ERANGE\<close>
  (\<^verbatim>\<open>out_of_range\<close>) being raised when that rational rounds beyond the largest finite binary64
  number (it is at least \<open>2\<^sup>1\<^sup>0\<^sup>2\<^sup>4 - 2\<^sup>9\<^sup>7\<^sup>0\<close>) or is a non-zero number below the smallest normal one,
  \<open>2\<^sup>-\<^sup>1\<^sup>0\<^sup>2\<^sup>2\<close>, that is not a multiple of the smallest subnormal one, \<open>2\<^sup>-\<^sup>1\<^sup>0\<^sup>7\<^sup>4\<close>; \<open>erange\<close> tests
  this on the numerator \<open>a\<close> and the denominator \<open>b\<close> of the rational in lowest terms.
\<close>

datatype double = Finite rat | Infinite bool | NaN

type_synonym stod_fun = "string \<Rightarrow> (double \<times> nat) option"

definition tolower_c :: "char \<Rightarrow> char" where
  "tolower_c c =
     (case map_of (zip ''ABCDEFGHIJKLMNOPQRSTUVWXYZ'' ''abcdefghijklmnopqrstuvwxyz'') c of
        Some l \<Rightarrow> l | None \<Rightarrow> c)"

definition isxdigit :: "char \<Rightarrow> bool" where
  "isxdigit c \<longleftrightarrow> c \<in> set ''0123456789abcdefABCDEF''"

definition xdigits_val :: "string \<Rightarrow> nat" where
  "xdigits_val ds =
     foldl (\<lambda>acc c. 16 * acc + length (takeWhile (\<lambda>d. d \<noteq> tolower_c c) ''0123456789abcdef'')) 0 ds"

text \<open>
  The optional exponent part: the marker (\<^verbatim>\<open>e\<close> or \<^verbatim>\<open>p\<close>, in either case), an optional sign and at
  least one decimal digit.  An incomplete exponent is not consumed.
\<close>

definition scan_exponent :: "char \<Rightarrow> string \<Rightarrow> int \<times> nat" where
  "scan_exponent marker r =
     (let sign = take 1 (takeWhile isSign (drop 1 r));
          ds = takeWhile isdigit (drop (1 + length sign) r)
      in if map tolower_c (take 1 r) = [marker] \<and> ds \<noteq> [] then
           (if sign = ''-'' then - int (digits_val ds) else int (digits_val ds),
            1 + length sign + length ds)
         else (0, 0))"

definition scale_by :: "rat \<Rightarrow> rat \<Rightarrow> int \<Rightarrow> rat" where
  "scale_by q b e = (if 0 \<le> e then q * b ^ nat e else q / b ^ nat (- e))"

text \<open>
  Digits with an optional radix point (at least one digit in all), then the optional exponent;
  \<open>None\<close> when no digit is found.  \<open>scan_decimal\<close> reads decimal digits scaled by a power of ten,
  \<open>scan_hex\<close> reads \<^verbatim>\<open>0x\<close> and hexadecimal digits scaled by a power of two.
\<close>

definition scan_decimal :: "string \<Rightarrow> (rat \<times> nat) option" where
  "scan_decimal r =
     (let ip = takeWhile isdigit r;
          dot = (take 1 (drop (length ip) r) = ''.'');
          fp = (if dot then takeWhile isdigit (drop (length ip + 1) r) else []);
          n = length ip + (if dot then 1 + length fp else 0);
          ex = scan_exponent CHR ''e'' (drop n r)
      in if ip = [] \<and> fp = [] then None
         else Some (scale_by (of_nat (digits_val (ip @ fp)) / 10 ^ length fp) 10 (fst ex),
                    n + snd ex))"

definition scan_hex :: "string \<Rightarrow> (rat \<times> nat) option" where
  "scan_hex r =
     (let r0 = drop 2 r;
          ip = takeWhile isxdigit r0;
          dot = (take 1 (drop (length ip) r0) = ''.'');
          fp = (if dot then takeWhile isxdigit (drop (length ip + 1) r0) else []);
          n = 2 + length ip + (if dot then 1 + length fp else 0);
          ex = scan_exponent CHR ''p'' (drop n r)
      in if map tolower_c (take 2 r) \<noteq> ''0x'' \<or> (ip = [] \<and> fp = []) then None
         else Some (scale_by (of_nat (xdigits_val (ip @ fp)) / 16 ^ length fp) 2 (fst ex),
                    n + snd ex))"

text \<open>The infinities and the NaNs, in any case; \<open>True\<close> marks an infinity.\<close>

definition scan_special :: "string \<Rightarrow> (bool \<times> nat) option" where
  "scan_special r =
     (let l = map tolower_c r;
          tag = takeWhile isIdentChar (drop 4 r)
      in if take 8 l = ''infinity'' then Some (True, 8)
         else if take 3 l = ''inf'' then Some (True, 3)
         else if take 3 l = ''nan'' then
           (if take 1 (drop 3 r) = ''('' \<and> take 1 (drop (4 + length tag) r) = '')''
            then Some (False, 5 + length tag) else Some (False, 3))
         else None)"

definition erange :: "rat \<Rightarrow> bool" where
  "erange q =
     (case quotient_of q of
        (a, b) \<Rightarrow>
          a \<noteq> 0 \<and> ((2 ^ 1024 - 2 ^ 970) * b \<le> \<bar>a\<bar>
                   \<or> (\<bar>a\<bar> * 2 ^ 1022 < b \<and> \<not> b dvd 2 ^ 1074)))"

definition stod :: stod_fun where
  "stod s =
     (let ws = takeWhile isspace s;
          r1 = dropWhile isspace s;
          sign = take 1 (takeWhile isSign r1);
          r2 = drop (length sign) r1;
          neg = (sign = ''-'');
          n0 = length ws + length sign
      in case scan_special r2 of
           Some (isInf, n) \<Rightarrow> Some (if isInf then Infinite neg else NaN, n0 + n)
         | None \<Rightarrow>
             (case (case scan_hex r2 of Some h \<Rightarrow> Some h | None \<Rightarrow> scan_decimal r2) of
                None \<Rightarrow> None
              | Some (q, n) \<Rightarrow>
                  if erange q then None else Some (Finite (if neg then - q else q), n0 + n)))"

text \<open>
  The two attempts of \<open>Lexer::tokenizeValue\<close>: a conversion that does not throw and whose
  \<open>pos\<close> is the length of the text.
\<close>

definition intConsumesAll :: "string \<Rightarrow> bool" where
  "intConsumesAll s = (case stoi s of None \<Rightarrow> False | Some (v, pos) \<Rightarrow> pos = length s)"

definition floatConsumesAll :: "stod_fun \<Rightarrow> string \<Rightarrow> bool" where
  "floatConsumesAll sd s = (case sd s of None \<Rightarrow> False | Some (d, pos) \<Rightarrow> pos = length s)"

section \<open>The lexer (Lexer.cpp)\<close>

text \<open>
  The member vector \<open>tokens\<close> is only ever appended to, and a throw discards it, so each function
  returns the tokens it appends, or the error it throws.

  \<open>tokenizeValue\<close> is the function of the same name; \<open>tokenizeSegments\<close> is its inner
  \<^verbatim>\<open>while (std::getline(ss, segment, ','))\<close> loop over the unread rest \<open>ss\<close> of the array interior,
  with the loop variable \<open>first\<close>.
\<close>

function tokenizeValue :: "stod_fun \<Rightarrow> string \<Rightarrow> nat \<Rightarrow> error + Token list"
  and tokenizeSegments :: "stod_fun \<Rightarrow> string \<Rightarrow> bool \<Rightarrow> nat \<Rightarrow> error + Token list"
where
  "tokenizeValue sd valStr lineNum =
     (let s = trim valStr in
      if s = [] then Inr []
      else if startsWith s ''\"'' \<and> endsWith s ''\"'' then
        Inr [mkToken TOKEN_STRING (substr_minus s 1 2) lineNum 0]
      else if s = ''SuperEffective'' then Inr [mkToken TOKEN_BOOL ''true'' lineNum 0]
      else if s = ''NotVeryEffective'' then Inr [mkToken TOKEN_BOOL ''false'' lineNum 0]
      else if s = ''MissingNo'' then Inr [mkToken TOKEN_NULL [] lineNum 0]
      else if startsWith s ''<|'' \<and> endsWith s ''|>'' then
        (case tokenizeSegments sd (substr_minus s 2 4) True lineNum of
           Inl e \<Rightarrow> Inl e
         | Inr ts \<Rightarrow>
             Inr (mkToken TOKEN_ARRAY_START [] lineNum 0 # ts
                  @ [mkToken TOKEN_ARRAY_END [] lineNum 0]))
      else if intConsumesAll s then Inr [mkToken TOKEN_NUMBER s lineNum 0]
      else if floatConsumesAll sd s then Inr [mkToken TOKEN_NUMBER s lineNum 0]
      else Inl TypeError)"
| "tokenizeSegments sd ss first lineNum =
     (case getline ss CHR '','' of
        None \<Rightarrow> Inr []
      | Some (segment, ss') \<Rightarrow>
          (case tokenizeValue sd segment lineNum of
             Inl e \<Rightarrow> Inl e
           | Inr ts \<Rightarrow>
               (case tokenizeSegments sd ss' False lineNum of
                  Inl e \<Rightarrow> Inl e
                | Inr ts' \<Rightarrow>
                    Inr ((if first then [] else [mkToken TOKEN_COMMA [] lineNum 0]) @ ts @ ts'))))"
  by pat_completeness auto

lemma length_trim_le: "length (trim s) \<le> length s"
  unfolding trim_def
  by (metis length_dropWhile_le length_rev order_trans)

lemma length_substr_minus_lt:
  "s \<noteq> [] \<Longrightarrow> 0 < pos \<Longrightarrow> length (substr_minus s pos k) < length s"
  by (cases s) (auto simp: substr_minus_def min_def)

lemma getline_Some_length:
  assumes "getline ss d = Some (seg, ss')"
  shows "length seg \<le> length ss" and "length ss' < length ss"
proof -
  from assms have ne: "ss \<noteq> []" and seg: "seg = takeWhile (\<lambda>c. c \<noteq> d) ss"
    and rest: "ss' = drop 1 (dropWhile (\<lambda>c. c \<noteq> d) ss)"
    by (auto simp: getline_def split: if_splits)
  show "length seg \<le> length ss"
    unfolding seg by (rule length_takeWhile_le)
  have "length (dropWhile (\<lambda>c. c \<noteq> d) ss) \<le> length ss"
    by (rule length_dropWhile_le)
  moreover have "0 < length ss"
    using ne by simp
  moreover have "length ss' = length (dropWhile (\<lambda>c. c \<noteq> d) ss) - 1"
    unfolding rest by simp
  ultimately show "length ss' < length ss"
    by arith
qed

termination tokenizeValue
proof (relation "measure (\<lambda>x. case x of
          Inl (sd, s, n) \<Rightarrow> 2 * length s
        | Inr (sd, ss, f, n) \<Rightarrow> 2 * length ss + 1)")
  show "wf (measure (\<lambda>x. case x of
          Inl (sd, s, n) \<Rightarrow> 2 * length s
        | Inr (sd, ss, f, n) \<Rightarrow> 2 * length ss + 1))"
    by simp
next
  fix sd :: stod_fun and valStr :: string and lineNum :: nat and x
  assume x: "x = trim valStr" and "startsWith x ''<|'' \<and> endsWith x ''|>''"
  then have "x \<noteq> []"
    by (auto simp: startsWith_def)
  then have "length (substr_minus x 2 4) < length x"
    by (rule length_substr_minus_lt) simp
  moreover have "length x \<le> length valStr"
    unfolding x by (rule length_trim_le)
  ultimately show "(Inr (sd, substr_minus x 2 4, True, lineNum), Inl (sd, valStr, lineNum))
      \<in> measure (\<lambda>x. case x of
          Inl (sd, s, n) \<Rightarrow> 2 * length s
        | Inr (sd, ss, f, n) \<Rightarrow> 2 * length ss + 1)"
    by simp
next
  fix sd :: stod_fun and ss :: string and first :: bool and lineNum :: nat
    and x2 segment ss'
  assume "getline ss CHR '','' = Some x2" and "(segment, ss') = x2"
  then have "getline ss CHR '','' = Some (segment, ss')" by simp
  from getline_Some_length(1)[OF this]
  show "(Inl (sd, segment, lineNum), Inr (sd, ss, first, lineNum))
      \<in> measure (\<lambda>x. case x of
          Inl (sd, s, n) \<Rightarrow> 2 * length s
        | Inr (sd, ss, f, n) \<Rightarrow> 2 * length ss + 1)"
    by simp
next
  fix sd :: stod_fun and ss :: string and first :: bool and lineNum :: nat
    and x2 segment ss' ts
  assume "getline ss CHR '','' = Some x2" and "(segment, ss') = x2"
  then have "getline ss CHR '','' = Some (segment, ss')" by simp
  from getline_Some_length(2)[OF this]
  show "(Inr (sd, ss', False, lineNum), Inr (sd, ss, first, lineNum))
      \<in> measure (\<lambda>x. case x of
          Inl (sd, s, n) \<Rightarrow> 2 * length s
        | Inr (sd, ss, f, n) \<Rightarrow> 2 * length ss + 1)"
    by simp
qed

declare tokenizeValue.simps [simp del] tokenizeSegments.simps [simp del]

text \<open>
  \<^verbatim>\<open>std::regex_match(line, matches, re)\<close> for the pattern
  \<^verbatim>\<open>^([a-zA-Z0-9_]+)\s*(~{1,}>)\s*(.*)$\<close> (ECMAScript grammar), giving the groups 1 and 3.  Each
  greedy repetition is followed by something it cannot itself match, so the only possible match
  takes the longest key, the longest run of white space, the longest run of tildes, a \<^verbatim>\<open>>\<close> and
  again the longest run of white space; \<^verbatim>\<open>.\<close> matches every character but the line terminators
  \<^verbatim>\<open>\n\<close> and \<^verbatim>\<open>\r\<close>, so the rest must be free of them.
\<close>

definition matchKeyValue :: "string \<Rightarrow> (string \<times> string) option" where
  "matchKeyValue lineStr =
     (let key = takeWhile isIdentChar lineStr;
          r1 = dropWhile isspace (dropWhile isIdentChar lineStr);
          vine = takeWhile (\<lambda>c. c = CHR ''~'') r1;
          r2 = dropWhile (\<lambda>c. c = CHR ''~'') r1;
          valStr = dropWhile isspace (drop 1 r2)
      in if key \<noteq> [] \<and> vine \<noteq> [] \<and> take 1 r2 = ''>''
            \<and> (\<forall>c \<in> set valStr. c \<noteq> CHR 0x0A \<and> c \<noteq> CHR 0x0D)
         then Some (key, valStr) else None)"

text \<open>The three section shapes of \<open>Lexer::tokenizeLine\<close> differ only in the marker and the stage.\<close>

definition sectionTokens :: "string \<Rightarrow> nat \<Rightarrow> nat \<Rightarrow> Token list" where
  "sectionTokens lineStr lineNum stage =
     [mkToken TOKEN_SECTION_OPEN [] lineNum stage,
      mkToken TOKEN_IDENTIFIER (substr_minus lineStr 4 8) lineNum 0,
      mkToken TOKEN_SECTION_CLOSE [] lineNum stage]"

definition tokenizeLine :: "stod_fun \<Rightarrow> string \<Rightarrow> nat \<Rightarrow> error + Token list" where
  "tokenizeLine sd lineStr lineNum =
     (if startsWith lineStr ''(o) '' \<and> endsWith lineStr '' (o)'' then Inr (sectionTokens lineStr lineNum 1)
      else if startsWith lineStr ''(O) '' \<and> endsWith lineStr '' (O)'' then Inr (sectionTokens lineStr lineNum 2)
      else if startsWith lineStr ''(@) '' \<and> endsWith lineStr '' (@)'' then Inr (sectionTokens lineStr lineNum 3)
      else (case matchKeyValue lineStr of
              Some (key, valStr) \<Rightarrow>
                (case tokenizeValue sd valStr lineNum of
                   Inl e \<Rightarrow> Inl e
                 | Inr ts \<Rightarrow>
                     Inr (mkToken TOKEN_IDENTIFIER key lineNum 0
                          # mkToken TOKEN_VINE_WHIP [] lineNum 0 # ts))
            | None \<Rightarrow> Inl SyntaxError))"

text \<open>
  The body of the loop of \<open>Lexer::tokenize\<close> for a line after the first: the comment is cut off,
  white space is trimmed on the right, an empty line is skipped, the indentation is counted and
  checked, the \<open>INDENT\<close> token is emitted and the trimmed line is tokenized.
\<close>

definition stripCR :: "string \<Rightarrow> string" where
  "stripCR lineStr = (if lineStr \<noteq> [] \<and> last lineStr = CHR 0x0D then butlast lineStr else lineStr)"

definition lexLine :: "stod_fun \<Rightarrow> string \<Rightarrow> nat \<Rightarrow> error + Token list" where
  "lexLine sd line0 lineNum =
     (let line1 = (case str_find line0 ''zZz'' of Some commentPos \<Rightarrow> take commentPos line0
                 | None \<Rightarrow> line0);
          line2 = rev (dropWhile isspace (rev line1));
          indentCount = length (takeWhile (\<lambda>c. c = CHR '' '') line2);
          hasTab = (take 1 (drop indentCount line2) = [CHR 0x09])
      in if line2 = [] then Inr []
         else if hasTab then Inl TabError
         else if indentCount mod 4 \<noteq> 0 then Inl IndentationError
         else (case tokenizeLine sd (trim line2) lineNum of
                 Inl e \<Rightarrow> Inl e
               | Inr ts \<Rightarrow> Inr (mkToken TOKEN_INDENT [] lineNum (indentCount div 4) # ts)))"

text \<open>
  The \<^verbatim>\<open>while (std::getline(ss, line))\<close> loop of \<open>Lexer::tokenize\<close> on the unread rest \<open>ss\<close> of
  the content, with the variables \<open>lineNum\<close> and \<open>firstLine\<close>; when the loop ends the \<open>EOF\<close> token
  is appended.
\<close>

function tokenizeLoop :: "stod_fun \<Rightarrow> string \<Rightarrow> nat \<Rightarrow> bool \<Rightarrow> error + Token list" where
  "tokenizeLoop sd ss lineNum firstLine =
     (case getline ss CHR 0x0A of
        None \<Rightarrow> Inr [mkToken TOKEN_EOF [] lineNum 0]
      | Some (lineStr, ss') \<Rightarrow>
          if firstLine then
            (if stripCR lineStr \<noteq> ''BULBA!'' then Inl HeaderError
             else (case tokenizeLoop sd ss' (lineNum + 1) False of
                     Inl e \<Rightarrow> Inl e
                   | Inr ts \<Rightarrow> Inr (mkToken TOKEN_HEADER ''BULBA!'' (lineNum + 1) 0 # ts)))
          else
            (case lexLine sd (stripCR lineStr) (lineNum + 1) of
               Inl e \<Rightarrow> Inl e
             | Inr ts \<Rightarrow>
                 (case tokenizeLoop sd ss' (lineNum + 1) False of
                    Inl e \<Rightarrow> Inl e
                  | Inr ts' \<Rightarrow> Inr (ts @ ts'))))"
  by pat_completeness auto

termination tokenizeLoop
  by (relation "measure (\<lambda>(sd, ss, n, f). length ss)")
     (auto dest: getline_Some_length(2))

declare tokenizeLoop.simps [simp del]

definition tokenize :: "stod_fun \<Rightarrow> string \<Rightarrow> error + Token list" where
  "tokenize sd content = tokenizeLoop sd content 0 True"

section \<open>Values, objects and the parser state (BSONParser.hpp)\<close>

text \<open>
  \<open>BSONValue\<close> is the tagged struct of the source; its constructors are named after the \<open>Type\<close>
  tags (\<open>INT_TYPE\<close> for the tag \<^verbatim>\<open>INT\<close>).  An object is a \<^verbatim>\<open>std::shared_ptr<BSONMap>\<close>: the parser keeps such pointers on its stack
  and writes through them, so the maps live in an explicit store, a list of maps addressed by
  position, and \<open>OBJECT a\<close> holds the address \<open>a\<close>.  \<^verbatim>\<open>std::make_shared\<close> allocates the next
  address.  A \<open>BSONMap\<close> is an association list with unique keys; \<^verbatim>\<open>m[key] = val\<close> is
  \<open>AList.update\<close>, which replaces the value of a key that is present and adds the key otherwise.
\<close>

datatype BSONValue =
    STRING string | INT_TYPE int | FLOAT double | BOOL bool | NULL_TYPE
  | ARRAY "BSONValue list" | OBJECT nat

type_synonym BSONMap = "(string \<times> BSONValue) list"

text \<open>\<open>Context\<close> is the stack frame of the parser (fields \<open>map\<close> and \<open>level\<close> in the source).\<close>

record Context =
  ctx_map :: nat
  ctx_level :: nat

record parser_state =
  heap :: "BSONMap list"
  stack :: "Context list"
  currentLevel :: nat

text \<open>
  The state after \<^verbatim>\<open>root = make_shared<BSONMap>(); stack.clear(); stack.push_back({root, 0});
  currentLevel = 0\<close>: the root is the object at address 0.
\<close>

definition initial_state :: parser_state where
  "initial_state = \<lparr>heap = [[]], stack = [\<lparr>ctx_map = 0, ctx_level = 0\<rparr>], currentLevel = 0\<rparr>"

definition validateKey :: "string \<Rightarrow> error + unit" where
  "validateKey key = (if key = ''Charizard'' then Inl ReservedKeyError else Inr ())"

section \<open>The value grammar (BSONParser::parseValueFromTokens)\<close>

text \<open>
  The \<open>TOKEN_NUMBER\<close> case: the integer conversion if it consumes the whole literal, otherwise the
  floating-point conversion (whose \<open>pos\<close> is not looked at), otherwise the type error.
\<close>

definition parseNumber :: "stod_fun \<Rightarrow> string \<Rightarrow> error + BSONValue" where
  "parseNumber sd lit =
     (let viaDouble = (case sd lit of Some (d, pos) \<Rightarrow> Inr (FLOAT d) | None \<Rightarrow> Inl TypeError)
      in case stoi lit of
           Some (v, pos) \<Rightarrow> if pos = length lit then Inr (INT_TYPE v) else viaDouble
         | None \<Rightarrow> viaDouble)"

text \<open>
  The token vector and the cursor \<open>i\<close> are the list of the tokens from \<open>i\<close> on; the function
  returns the value together with the tokens from the advanced cursor on.  \<open>parseArray\<close> is the
  \<^verbatim>\<open>while (i < tokens.size())\<close> loop of the \<open>TOKEN_ARRAY_START\<close> case, with the array \<open>arr\<close> built so
  far.
\<close>

function parseValueFromTokens :: "stod_fun \<Rightarrow> Token list \<Rightarrow> error + (BSONValue \<times> Token list)"
  and parseArray ::
    "stod_fun \<Rightarrow> Token list \<Rightarrow> BSONValue list \<Rightarrow> error + (BSONValue \<times> Token list)"
where
  "parseValueFromTokens sd [] = Inl SyntaxError"
| "parseValueFromTokens sd (token # ts) =
     (if type token = TOKEN_STRING then Inr (STRING (literal token), ts)
      else if type token = TOKEN_NUMBER then
        (case parseNumber sd (literal token) of Inl e \<Rightarrow> Inl e | Inr v \<Rightarrow> Inr (v, ts))
      else if type token = TOKEN_BOOL then Inr (BOOL (literal token = ''true''), ts)
      else if type token = TOKEN_NULL then Inr (NULL_TYPE, ts)
      else if type token = TOKEN_ARRAY_START then parseArray sd ts []
      else Inl TypeError)"
| "parseArray sd [] arr = Inl SyntaxError"
| "parseArray sd (t # ts) arr =
     (if type t = TOKEN_ARRAY_END then Inr (ARRAY arr, ts)
      else if type t = TOKEN_COMMA then parseArray sd ts arr
      else (case parseValueFromTokens sd (t # ts) of
              Inl e \<Rightarrow> Inl e
            | Inr (v, ts') \<Rightarrow> parseArray sd ts' (arr @ [v])))"
  by pat_completeness auto

lemma parseValue_shorter_dom:
  "parseValueFromTokens_parseArray_dom (Inl (sd, ts)) \<Longrightarrow>
     parseValueFromTokens sd ts = Inr (v, ts') \<Longrightarrow> length ts' < length ts"
  "parseValueFromTokens_parseArray_dom (Inr (sd, ts, arr)) \<Longrightarrow>
     parseArray sd ts arr = Inr (v, ts') \<Longrightarrow> length ts' \<le> length ts"
proof (induct sd ts and sd ts arr arbitrary: v ts' and v ts'
       rule: parseValueFromTokens_parseArray.pinduct)
  case (1 sd)
  then show ?case by (simp add: parseValueFromTokens.psimps)
next
  case (2 sd token ts)
  then show ?case
    by (auto simp: parseValueFromTokens.psimps split: if_splits sum.splits)
next
  case (3 sd arr)
  then show ?case by (simp add: parseArray.psimps)
next
  case (4 sd t ts arr)
  show ?case
  proof (cases "type t = TOKEN_ARRAY_END \<or> type t = TOKEN_COMMA")
    case True
    with 4 show ?thesis
      by (auto simp: parseArray.psimps split: if_splits)
  next
    case False
    with 4(1,5) obtain w rest where
      pv: "parseValueFromTokens sd (t # ts) = Inr (w, rest)" and
      pa: "parseArray sd rest (arr @ [w]) = Inr (v, ts')"
      by (auto simp: parseArray.psimps split: sum.splits)
    from 4(3)[OF _ _ pv] False have "length rest < length (t # ts)" by simp
    moreover from 4(4)[OF _ _ pv _ pa] False have "length ts' \<le> length rest" by simp
    ultimately show ?thesis by simp
  qed
qed

termination parseValueFromTokens
  by (relation "measure (\<lambda>x. case x of
          Inl (sd, ts) \<Rightarrow> 2 * length ts
        | Inr (sd, ts, arr) \<Rightarrow> 2 * length ts + 1)")
     (auto dest: parseValue_shorter_dom(1))

section \<open>The structural parser (BSONParser::parse)\<close>

text \<open>
  The section-header branch of the loop, entered after the \<open>INDENT\<close> token (level
  \<open>expectedLevel\<close>) and at the \<open>SECTION_OPEN\<close> token (level \<open>headerLevel\<close>); \<open>ts\<close> are the tokens after
  \<open>SECTION_OPEN\<close>.  On success the new state and the tokens after \<open>SECTION_CLOSE\<close> are returned.
  The \<^verbatim>\<open>while (stack.size() > headerLevel) stack.pop_back()\<close> loop is \<open>take headerLevel\<close>.
\<close>

definition openSection ::
  "parser_state \<Rightarrow> nat \<Rightarrow> nat \<Rightarrow> Token list \<Rightarrow> error + (parser_state \<times> Token list)" where
  "openSection st expectedLevel headerLevel ts =
     (if int expectedLevel \<noteq> int headerLevel - 1 then Inl IndentationError
      else if length (stack st) < headerLevel then Inl BadgesError
      else (case ts of
              [] \<Rightarrow> Inl SyntaxError
            | keyToken # ts1 \<Rightarrow>
                if type keyToken \<noteq> TOKEN_IDENTIFIER then Inl SyntaxError
                else (case validateKey (literal keyToken) of
                        Inl e \<Rightarrow> Inl e
                      | Inr u \<Rightarrow>
                          (case ts1 of
                             [] \<Rightarrow> Inl SyntaxError
                           | closeToken # ts2 \<Rightarrow>
                               if type closeToken \<noteq> TOKEN_SECTION_CLOSE then Inl SyntaxError
                               else
                                 let stack1 = take headerLevel (stack st);
                                     newMap = length (heap st);
                                     parentMap = ctx_map (last stack1);
                                     heap1 = (heap st)[parentMap :=
                                        AList.update (literal keyToken) (OBJECT newMap)
                                          (heap st ! parentMap)] @ [[]]
                                 in Inr (\<lparr>heap = heap1,
                                          stack = stack1
                                            @ [\<lparr>ctx_map = newMap, ctx_level = headerLevel\<rparr>],
                                          currentLevel = headerLevel\<rparr>, ts2)))))"

text \<open>
  The key/value branch, entered at the \<open>IDENTIFIER\<close> token \<open>keyToken\<close>; \<open>ts\<close> are the tokens after
  it.  The \<^verbatim>\<open>while (stack.size() > expectedLevel + 1) stack.pop_back()\<close> loop is
  \<open>take (expectedLevel + 1)\<close>.
\<close>

definition assignKey ::
  "stod_fun \<Rightarrow> parser_state \<Rightarrow> nat \<Rightarrow> Token \<Rightarrow> Token list
     \<Rightarrow> error + (parser_state \<times> Token list)" where
  "assignKey sd st expectedLevel keyToken ts =
     (if expectedLevel \<noteq> currentLevel st \<and> \<not> expectedLevel < currentLevel st
      then Inl IndentationError
      else
        let st1 = (if expectedLevel \<noteq> currentLevel st
                   then st\<lparr>stack := take (expectedLevel + 1) (stack st),
                           currentLevel := expectedLevel\<rparr>
                   else st)
        in case validateKey (literal keyToken) of
             Inl e \<Rightarrow> Inl e
           | Inr u \<Rightarrow>
               (case ts of
                  [] \<Rightarrow> Inl SyntaxError
                | vine # ts1 \<Rightarrow>
                    if type vine \<noteq> TOKEN_VINE_WHIP then Inl SyntaxError
                    else (case parseValueFromTokens sd ts1 of
                            Inl e \<Rightarrow> Inl e
                          | Inr (val, ts2) \<Rightarrow>
                              let currentMap = ctx_map (last (stack st1))
                              in Inr (st1\<lparr>heap := (heap st1)[currentMap :=
                                         AList.update (literal keyToken) val
                                           (heap st1 ! currentMap)]\<rparr>, ts2))))"

text \<open>
  One iteration of the \<^verbatim>\<open>while (i < tokens.size())\<close> loop on the tokens from \<open>i\<close> on: it throws,
  leaves the loop (the condition fails or a \<^verbatim>\<open>break\<close> is taken), or continues with a new state
  and cursor.
\<close>

datatype loop_outcome = Throw error | Break | Continue parser_state "Token list"

definition loopBody :: "stod_fun \<Rightarrow> parser_state \<Rightarrow> Token list \<Rightarrow> loop_outcome" where
  "loopBody sd st tokens =
     (case tokens of
        [] \<Rightarrow> Break
      | token # ts \<Rightarrow>
          if type token = TOKEN_EOF then Break
          else if type token = TOKEN_HEADER then Continue st ts
          else if type token = TOKEN_INDENT then
            (case ts of
               [] \<Rightarrow> Break
             | nextToken # ts1 \<Rightarrow>
                 if type nextToken = TOKEN_SECTION_OPEN then
                   (case openSection st (level token) (level nextToken) ts1 of
                      Inl e \<Rightarrow> Throw e
                    | Inr (st', ts') \<Rightarrow> Continue st' ts')
                 else if type nextToken = TOKEN_IDENTIFIER then
                   (case assignKey sd st (level token) nextToken ts1 of
                      Inl e \<Rightarrow> Throw e
                    | Inr (st', ts') \<Rightarrow> Continue st' ts')
                 else Throw SyntaxError)
          else Continue st ts)"

lemma parseValue_shorter_aux:
  "parseValueFromTokens sd ts = Inr (v, ts') \<Longrightarrow> length ts' < length ts"
  "parseArray sd ts arr = Inr (v, ts') \<Longrightarrow> length ts' \<le> length ts"
proof (induct sd ts and sd ts arr arbitrary: v ts' and v ts'
       rule: parseValueFromTokens_parseArray.induct)
  case (1 sd)
  then show ?case by simp
next
  case (2 sd token ts)
  then show ?case
    by (auto split: if_splits sum.splits)
next
  case (3 sd arr)
  then show ?case by simp
next
  case (4 sd t ts arr)
  show ?case
  proof (cases "type t = TOKEN_ARRAY_END \<or> type t = TOKEN_COMMA")
    case True
    with 4 show ?thesis
      by (auto split: if_splits)
  next
    case False
    with 4(4) obtain w rest where
      pv: "parseValueFromTokens sd (t # ts) = Inr (w, rest)" and
      pa: "parseArray sd rest (arr @ [w]) = Inr (v, ts')"
      by (auto split: sum.splits)
    from 4(2)[OF _ _ pv] False have "length rest < length (t # ts)" by simp
    moreover from 4(3)[OF _ _ pv _ pa] False have "length ts' \<le> length rest" by simp
    ultimately show ?thesis by simp
  qed
qed

lemmas parseValue_shorter = parseValue_shorter_aux(1)

lemma loopBody_shorter:
  assumes "loopBody sd st tokens = Continue st' ts'"
  shows "length ts' < length tokens"
  using assms
  by (auto simp: loopBody_def openSection_def assignKey_def Let_def
           split: list.splits if_splits sum.splits dest!: parseValue_shorter)

function parseLoop :: "stod_fun \<Rightarrow> parser_state \<Rightarrow> Token list \<Rightarrow> error + parser_state" where
  "parseLoop sd st tokens =
     (case loopBody sd st tokens of
        Throw e \<Rightarrow> Inl e
      | Break \<Rightarrow> Inr st
      | Continue st' ts' \<Rightarrow> parseLoop sd st' ts')"
  by pat_completeness auto

termination parseLoop
  by (relation "measure (\<lambda>(sd, st, tokens). length tokens)")
     (auto dest: loopBody_shorter)

declare parseLoop.simps [simp del]

text \<open>
  \<open>BSONParser::parse\<close>: the content is tokenized, the loop is run from the initial state, and
  \<^verbatim>\<open>*root\<close> is returned, the root map together with the store its objects point into.
\<close>

definition parse :: "stod_fun \<Rightarrow> string \<Rightarrow> error + (BSONMap \<times> BSONMap list)" where
  "parse sd content =
     (case tokenize sd content of
        Inl e \<Rightarrow> Inl e
      | Inr tokens \<Rightarrow>
          (case parseLoop sd initial_state tokens of
             Inl e \<Rightarrow> Inl e
           | Inr st \<Rightarrow> Inr (heap st ! 0, heap st)))"

section \<open>The document as a tree\<close>

text \<open>
  The tree that a reader of the returned map sees when following the object pointers: \<open>resolve h a v\<close>
  is the tree of the value \<open>v\<close> found in the object at address \<open>a\<close> of the store \<open>h\<close>.  Objects are
  allocated after the object that refers to them, so a pointer is followed only when it leads to
  a later address of the store; \<open>DDangling\<close> stands for any other pointer (the parser never
  produces one, see \<open>parse_no_dangling\<close>).
\<close>

datatype Document =
    DString string | DInt int | DFloat double | DBool bool | DNull
  | DArray "Document list" | DObject "(string \<times> Document) list" | DDangling

function resolve :: "BSONMap list \<Rightarrow> nat \<Rightarrow> BSONValue \<Rightarrow> Document" where
  "resolve h a (STRING s) = DString s"
| "resolve h a (INT_TYPE i) = DInt i"
| "resolve h a (FLOAT d) = DFloat d"
| "resolve h a (BOOL b) = DBool b"
| "resolve h a NULL_TYPE = DNull"
| "resolve h a (ARRAY vs) = DArray (map (resolve h a) vs)"
| "resolve h a (OBJECT b) =
     (if a < b \<and> b < length h
      then DObject (map (\<lambda>kv. (fst kv, resolve h b (snd kv))) (h ! b))
      else DDangling)"
  by pat_completeness auto

termination resolve
proof (relation "measures [\<lambda>(h, a, v). length h - a, \<lambda>(h, a, v). size v]")
  show "wf (measures [\<lambda>(h, a, v). length h - a, \<lambda>(h, a, v). size v])"
    by simp
next
  fix h :: "BSONMap list" and a :: nat and vs :: "BSONValue list" and x
  assume "x \<in> set vs"
  then have "size x < Suc (size_list size vs)"
    by (induction vs) auto
  then show "((h, a, x), (h, a, ARRAY vs))
      \<in> measures [\<lambda>(h, a, v). length h - a, \<lambda>(h, a, v). size v]"
    by simp
next
  fix h :: "BSONMap list" and a b :: nat and x
  assume "a < b \<and> b < length h"
  then show "((h, b, snd x), (h, a, OBJECT b))
      \<in> measures [\<lambda>(h, a, v). length h - a, \<lambda>(h, a, v). size v]"
    by auto
qed

definition document :: "BSONMap \<times> BSONMap list \<Rightarrow> Document" where
  "document r = DObject (map (\<lambda>kv. (fst kv, resolve (snd r) 0 (snd kv))) (fst r))"

text \<open>All keys of a tree, at any depth.\<close>

fun doc_keys :: "Document \<Rightarrow> string set" where
  "doc_keys (DArray ds) = (\<Union>d \<in> set ds. doc_keys d)"
| "doc_keys (DObject kds) = fst ` set kds \<union> (\<Union>kd \<in> set kds. doc_keys (snd kd))"
| "doc_keys d = {}"

section \<open>Inputs\<close>

text \<open>
  The input of \<open>testValid\<close> in the test suite (main.cpp), line by line (each line ends with a
  line feed).
\<close>

definition valid_input :: string where
  "valid_input =
     ''BULBA!\<newline>'' @
     ''zZz Basic Configuration\<newline>'' @
     ''app_name ~~~~~~> \"Pokedex_API\"\<newline>'' @
     ''version  ~~~~~~> 1.5\<newline>'' @
     ''is_production ~> NotVeryEffective\<newline>'' @
     ''missing_data ~> MissingNo\<newline>'' @
     ''\<newline>'' @
     ''zZz Database Connection (Level 1)\<newline>'' @
     ''(o) database (o)\<newline>'' @
     ''    host ~~~~> \"127.0.0.1\"\<newline>'' @
     ''    \<newline>'' @
     ''    zZz Connection Pool Settings (Level 2)\<newline>'' @
     ''    (O) pool (O)\<newline>'' @
     ''        max_connections ~~~~> 100\<newline>'' @
     ''        \<newline>'' @
     ''        zZz Critical Kernel flags (Level 3)\<newline>'' @
     ''        (@) KERNEL_FLAGS (@)\<newline>'' @
     ''            panic_on_fail ~~~~> SuperEffective\<newline>'' @
     ''\<newline>'' @
     ''zZz Allowed Users List\<newline>'' @
     ''whitelist ~~~~> <| \"Prof_Oak\", \"Mom\" |>\<newline>''"

text \<open>The input of the "Deep Nesting Violation" test of the test suite.\<close>

definition deepNesting :: string where
  "deepNesting =
     ''BULBA!\<newline>(o) level1 (o)\<newline>        (@) level3 (@)\<newline>            key ~> \"val\"''"

text \<open>A section with one key, followed by a key at top level.\<close>

definition nested_input :: string where
  "nested_input =
     ''BULBA!\<newline>(o) level1 (o)\<newline>    key ~> \"val\"\<newline>top ~> MissingNo''"

text \<open>A key bound twice in a section, and the section opened a second time.\<close>

definition rebinding_input :: string where
  "rebinding_input =
     ''BULBA!\<newline>(o) a (o)\<newline>    x ~> 1\<newline>    x ~> 2\<newline>(o) a (o)\<newline>    y ~> 3''"

text \<open>The tokens of \<open>nested_input\<close> (see \<open>nested_tokens_lexed\<close>).\<close>

definition nested_tokens :: "Token list" where
  "nested_tokens =
     [mkToken TOKEN_HEADER ''BULBA!'' 1 0,
      mkToken TOKEN_INDENT [] 2 0, mkToken TOKEN_SECTION_OPEN [] 2 1,
      mkToken TOKEN_IDENTIFIER ''level1'' 2 0, mkToken TOKEN_SECTION_CLOSE [] 2 1,
      mkToken TOKEN_INDENT [] 3 1, mkToken TOKEN_IDENTIFIER ''key'' 3 0,
      mkToken TOKEN_VINE_WHIP [] 3 0, mkToken TOKEN_STRING ''val'' 3 0,
      mkToken TOKEN_INDENT [] 4 0, mkToken TOKEN_IDENTIFIER ''top'' 4 0,
      mkToken TOKEN_VINE_WHIP [] 4 0, mkToken TOKEN_NULL [] 4 0,
      mkToken TOKEN_EOF [] 4 0]"

section \<open>Notions used to state the properties\<close>

text \<open>
  \<open>loopIter sd n st ts\<close> is the state and cursor of the loop of \<open>parse\<close> after \<open>n\<close> iterations
  from \<open>(st, ts)\<close>, if it runs that long: these are the points between statements.
\<close>

fun loopIter ::
  "stod_fun \<Rightarrow> nat \<Rightarrow> parser_state \<Rightarrow> Token list \<Rightarrow> (parser_state \<times> Token list) option" where
  "loopIter sd 0 st ts = Some (st, ts)"
| "loopIter sd (Suc n) st ts =
     (case loopBody sd st ts of Continue st' ts' \<Rightarrow> loopIter sd n st' ts' | _ \<Rightarrow> None)"

text \<open>
  The stack invariant: one frame per open level.  The deepest open level is the level of the top
  frame and is what \<open>currentLevel\<close> holds; frame \<open>i\<close> has level \<open>i\<close>, and frame 0 is the root
  object (address 0) at level 0.
\<close>

definition stack_invariant :: "parser_state \<Rightarrow> bool" where
  "stack_invariant st \<longleftrightarrow>
     length (stack st) = currentLevel st + 1
     \<and> ctx_level (last (stack st)) = currentLevel st
     \<and> (\<forall>i < length (stack st). ctx_level (stack st ! i) = i)
     \<and> stack st ! 0 = \<lparr>ctx_map = 0, ctx_level = 0\<rparr>"

text \<open>The first physical line of a content: the text before the first line feed.\<close>

definition first_physical_line :: "string \<Rightarrow> string" where
  "first_physical_line content = takeWhile (\<lambda>c. c \<noteq> CHR 0x0A) content"

text \<open>
  What the lexer emits.  A token of a value (\<open>value_token\<close>) is on the line of its statement and
  is a string, boolean, null, bracket or comma token, or a number token whose literal one of the
  two conversions consumed entirely; a \<open>scalar_token\<close> is one that is a value on its own.
\<close>

definition value_token :: "stod_fun \<Rightarrow> nat \<Rightarrow> Token \<Rightarrow> bool" where
  "value_token sd n t \<longleftrightarrow>
     line t = n
     \<and> (type t = TOKEN_STRING \<or> type t = TOKEN_BOOL \<or> type t = TOKEN_NULL
        \<or> type t = TOKEN_ARRAY_START \<or> type t = TOKEN_ARRAY_END \<or> type t = TOKEN_COMMA
        \<or> (type t = TOKEN_NUMBER
            \<and> (intConsumesAll (literal t) \<or> floatConsumesAll sd (literal t))))"

definition scalar_token :: "stod_fun \<Rightarrow> nat \<Rightarrow> Token \<Rightarrow> bool" where
  "scalar_token sd n t \<longleftrightarrow>
     line t = n
     \<and> (type t = TOKEN_STRING \<or> type t = TOKEN_BOOL \<or> type t = TOKEN_NULL
        \<or> (type t = TOKEN_NUMBER
            \<and> (intConsumesAll (literal t) \<or> floatConsumesAll sd (literal t))))"

text \<open>
  The tokens of one line (line \<open>n\<close>) that is not skipped: a section header, or a key, the assign
  operator and the tokens of a value text.
\<close>

definition section_statement :: "nat \<Rightarrow> Token list \<Rightarrow> bool" where
  "section_statement n stmt \<longleftrightarrow>
     (\<exists>lv stage name.
        stmt = [mkToken TOKEN_INDENT [] n lv, mkToken TOKEN_SECTION_OPEN [] n stage,
                mkToken TOKEN_IDENTIFIER name n 0, mkToken TOKEN_SECTION_CLOSE [] n stage])"

definition keyvalue_statement :: "stod_fun \<Rightarrow> nat \<Rightarrow> Token list \<Rightarrow> bool" where
  "keyvalue_statement sd n stmt \<longleftrightarrow>
     (\<exists>lv key valStr vts.
        tokenizeValue sd valStr n = Inr vts
        \<and> stmt = mkToken TOKEN_INDENT [] n lv # mkToken TOKEN_IDENTIFIER key n 0
                 # mkToken TOKEN_VINE_WHIP [] n 0 # vts)"

text \<open>
  The token streams of the lines after the header: the statements of the lines that are not
  skipped, in turn, and the \<open>EOF\<close> token.
\<close>

inductive lexed_body :: "stod_fun \<Rightarrow> Token list \<Rightarrow> bool" for sd where
  eof: "lexed_body sd [mkToken TOKEN_EOF [] n 0]"
| sect: "section_statement n stmt \<Longrightarrow> lexed_body sd rest \<Longrightarrow> lexed_body sd (stmt @ rest)"
| keyval: "keyvalue_statement sd n stmt \<Longrightarrow> lexed_body sd rest \<Longrightarrow> lexed_body sd (stmt @ rest)"

text \<open>
  A token of the stream after the header token, lexed from a line after line \<open>n\<close>: it is no
  header token, an \<open>INDENT\<close> token is on a later line than \<open>n\<close>, and a number token has a
  literal that one of the two conversions consumed entirely.
\<close>

definition lexed_token :: "stod_fun \<Rightarrow> nat \<Rightarrow> Token \<Rightarrow> bool" where
  "lexed_token sd n t \<longleftrightarrow>
     type t \<noteq> TOKEN_HEADER
     \<and> (type t = TOKEN_INDENT \<longrightarrow> n < line t)
     \<and> (type t = TOKEN_NUMBER
          \<longrightarrow> intConsumesAll (literal t) \<or> floatConsumesAll sd (literal t))"

text \<open>
  A token stream in which an assign token is directly followed by an \<open>INDENT\<close> or the \<open>EOF\<close>
  token: the lexer emitted no value token for that key/value line.
\<close>

definition missing_value :: "Token list \<Rightarrow> bool" where
  "missing_value toks \<longleftrightarrow>
     (\<exists>pre w t post. toks = pre @ w # t # post \<and> type w = TOKEN_VINE_WHIP
        \<and> (type t = TOKEN_INDENT \<or> type t = TOKEN_EOF))"

text \<open>An identifier token that carries the reserved key.\<close>

definition forbidden_key :: "Token \<Rightarrow> bool" where
  "forbidden_key t \<longleftrightarrow> type t = TOKEN_IDENTIFIER \<and> literal t = ''Charizard''"

text \<open>
  The shape of the store.  A value that the value grammar builds holds no object pointer
  (\<open>object_free\<close>); a value is \<open>well_placed\<close> in the object at address \<open>a\<close> of a store of \<open>n\<close>
  objects when it is such a value or a pointer to a later object of the store.  In a state that
  satisfies \<open>store_invariant\<close> every frame of the stack points into the store and every value
  of every object is well placed; in one that satisfies \<open>keys_allowed\<close> no object has the
  reserved key.
\<close>

fun object_free :: "BSONValue \<Rightarrow> bool" where
  "object_free (OBJECT a) = False"
| "object_free (ARRAY vs) = (\<forall>v \<in> set vs. object_free v)"
| "object_free v = True"

definition well_placed :: "nat \<Rightarrow> nat \<Rightarrow> BSONValue \<Rightarrow> bool" where
  "well_placed n a v = (case v of OBJECT b \<Rightarrow> a < b \<and> b < n | _ \<Rightarrow> object_free v)"

definition store_invariant :: "parser_state \<Rightarrow> bool" where
  "store_invariant st \<longleftrightarrow>
     (\<forall>c \<in> set (stack st). ctx_map c < length (heap st))
     \<and> (\<forall>a < length (heap st). \<forall>kv \<in> set (heap st ! a).
           well_placed (length (heap st)) a (snd kv))"

definition keys_allowed :: "parser_state \<Rightarrow> bool" where
  "keys_allowed st \<longleftrightarrow> (\<forall>m \<in> set (heap st). ''Charizard'' \<notin> fst ` set m)"

text \<open>A tree in which every pointer could be followed.\<close>

fun dangling_free :: "Document \<Rightarrow> bool" where
  "dangling_free DDangling = False"
| "dangling_free (DArray ds) = (\<forall>d \<in> set ds. dangling_free d)"
| "dangling_free (DObject kds) = (\<forall>kd \<in> set kds. dangling_free (snd kd))"
| "dangling_free d = True"

section \<open>Auxiliary lemmas\<close>

subsection \<open>Running the loop of the parser\<close>

lemma parseLoop_section:
  assumes "type tok1 = TOKEN_INDENT" "type tok2 = TOKEN_SECTION_OPEN"
  shows "parseLoop sd st (tok1 # tok2 # rest) =
     (case openSection st (level tok1) (level tok2) rest of
        Inl e \<Rightarrow> Inl e | Inr (st', ts') \<Rightarrow> parseLoop sd st' ts')"
  using assms
  by (subst parseLoop.simps) (simp add: loopBody_def split: sum.splits)

lemma parseLoop_keyValue:
  assumes "type tok1 = TOKEN_INDENT" "type tok2 = TOKEN_IDENTIFIER"
  shows "parseLoop sd st (tok1 # tok2 # rest) =
     (case assignKey sd st (level tok1) tok2 rest of
        Inl e \<Rightarrow> Inl e | Inr (st', ts') \<Rightarrow> parseLoop sd st' ts')"
  using assms
  by (subst parseLoop.simps) (simp add: loopBody_def split: sum.splits)

lemma parseLoop_Throw: "loopBody sd st ts = Throw e \<Longrightarrow> parseLoop sd st ts = Inl e"
  by (subst parseLoop.simps) simp

lemma parseLoop_Continue:
  "loopBody sd st ts = Continue st' ts' \<Longrightarrow> parseLoop sd st ts = parseLoop sd st' ts'"
  by (subst parseLoop.simps) simp

lemma parseLoop_loopIter:
  "loopIter sd n st ts = Some (st', ts') \<Longrightarrow> parseLoop sd st ts = parseLoop sd st' ts'"
proof (induction n arbitrary: st ts)
  case 0
  then show ?case by simp
next
  case (Suc n)
  from Suc.prems obtain st1 ts1 where
    step: "loopBody sd st ts = Continue st1 ts1" and run: "loopIter sd n st1 ts1 = Some (st', ts')"
    by (auto split: loop_outcome.splits)
  from parseLoop_Continue[OF step] Suc.IH[OF run] show ?case by simp
qed

lemma parse_loopIter:
  assumes "tokenize sd content = Inr toks"
    and "loopIter sd n initial_state toks = Some (st, ts)"
  shows "parse sd content = map_sum id (\<lambda>s. (heap s ! 0, heap s)) (parseLoop sd st ts)"
  using assms(1) parseLoop_loopIter[OF assms(2)]
  by (simp add: parse_def split: sum.splits)

lemma parseLoop_invariant:
  assumes "parseLoop sd st ts = Inr st'" and "P st"
    and "\<And>st ts st' ts'. P st \<Longrightarrow> loopBody sd st ts = Continue st' ts' \<Longrightarrow> P st'"
  shows "P st'"
  using assms
proof (induct sd st ts rule: parseLoop.induct)
  case (1 sd st tokens)
  show ?case
  proof (cases "loopBody sd st tokens")
    case (Throw e)
    with "1.prems"(1) show ?thesis
      by (subst (asm) parseLoop.simps) simp
  next
    case Break
    with "1.prems"(1) have "st' = st"
      by (subst (asm) parseLoop.simps) simp
    with "1.prems"(2) show ?thesis by simp
  next
    case (Continue st1 ts1)
    with "1.prems"(1) have run: "parseLoop sd st1 ts1 = Inr st'"
      by (subst (asm) parseLoop.simps) simp
    from "1.prems"(3)[OF "1.prems"(2) Continue] have "P st1" .
    from "1.hyps"[OF Continue run this "1.prems"(3)] show ?thesis .
  qed
qed

subsection \<open>The stack invariant\<close>

lemma stack_invariant_initial: "stack_invariant initial_state"
  by (simp add: stack_invariant_def initial_state_def)

lemma openSection_invariant:
  assumes inv: "stack_invariant st"
    and ok: "openSection st L S ts = Inr (st', ts')"
  shows "stack_invariant st'"
proof -
  from ok have S: "int L = int S - 1" and len: "S \<le> length (stack st)"
    by (auto simp: openSection_def split: if_splits)
  from ok have stk: "stack st' = take S (stack st) @ [\<lparr>ctx_map = length (heap st), ctx_level = S\<rparr>]"
    and cur: "currentLevel st' = S"
    by (auto simp: openSection_def Let_def split: if_splits list.splits sum.splits)
  from S have pos: "0 < S" by linarith
  have lvl: "ctx_level ((take S (stack st) @ [\<lparr>ctx_map = length (heap st), ctx_level = S\<rparr>]) ! i) = i"
    if "i < S + 1" for i
  proof (cases "i < S")
    case True
    with len inv show ?thesis
      by (simp add: nth_append stack_invariant_def)
  next
    case False
    with that have "i = S" by simp
    with len show ?thesis by (simp add: nth_append)
  qed
  have zero: "(take S (stack st) @ [\<lparr>ctx_map = length (heap st), ctx_level = S\<rparr>]) ! 0 = stack st ! 0"
    using pos len by (simp add: nth_append)
  show ?thesis
    unfolding stack_invariant_def stk cur
    using len lvl zero inv by (simp add: stack_invariant_def)
qed

lemma assignKey_invariant:
  assumes inv: "stack_invariant st"
    and ok: "assignKey sd st L k ts = Inr (st', ts')"
  shows "stack_invariant st'"
proof -
  from ok have le: "L \<le> currentLevel st"
    by (auto simp: assignKey_def split: if_splits)
  from ok have stk: "stack st' = (if L \<noteq> currentLevel st then take (L + 1) (stack st) else stack st)"
    and cur: "currentLevel st' = L"
    by (auto simp: assignKey_def Let_def split: if_splits list.splits sum.splits)
  show ?thesis
  proof (cases "L = currentLevel st")
    case True
    with inv stk cur show ?thesis by (simp add: stack_invariant_def)
  next
    case False
    with le have lt: "L < currentLevel st" by simp
    with inv have len: "L + 1 \<le> length (stack st)" by (simp add: stack_invariant_def)
    from False stk have stk': "stack st' = take (L + 1) (stack st)" by simp
    have "take (L + 1) (stack st) \<noteq> []" using len by auto
    then have "last (take (L + 1) (stack st)) = stack st ! L"
      using len by (simp add: last_conv_nth min_def)
    with inv len show ?thesis
      unfolding stack_invariant_def stk' cur by (simp add: min_def)
  qed
qed

lemma loopBody_invariant:
  assumes "stack_invariant st" and "loopBody sd st ts = Continue st' ts'"
  shows "stack_invariant st'"
  using assms
  by (auto simp: loopBody_def split: list.splits if_splits sum.splits
      dest: openSection_invariant assignKey_invariant)

lemma loopIter_invariant:
  "stack_invariant st0 \<Longrightarrow> loopIter sd n st0 ts0 = Some (st, ts) \<Longrightarrow> stack_invariant st"
proof (induction n arbitrary: st0 ts0)
  case 0
  then show ?case by simp
next
  case (Suc n)
  then show ?case
    by (auto split: loop_outcome.splits dest: loopBody_invariant)
qed

subsection \<open>What the lexer emits\<close>

lemma tokenizeValue_cases:
  assumes "tokenizeValue sd valStr n = Inr ts"
  obtains (empty) "ts = []"
  | (scalar) t where "ts = [t]" "scalar_token sd n t"
  | (array) inner where
      "trim valStr \<noteq> []"
      "\<not> (startsWith (trim valStr) ''\"'' \<and> endsWith (trim valStr) ''\"'')"
      "trim valStr \<noteq> ''SuperEffective''" "trim valStr \<noteq> ''NotVeryEffective''"
      "trim valStr \<noteq> ''MissingNo''"
      "startsWith (trim valStr) ''<|'' \<and> endsWith (trim valStr) ''|>''"
      "tokenizeSegments sd (substr_minus (trim valStr) 2 4) True n = Inr inner"
      "ts = mkToken TOKEN_ARRAY_START [] n 0 # inner @ [mkToken TOKEN_ARRAY_END [] n 0]"
  using assms
  apply (subst (asm) tokenizeValue.simps)
  apply (simp only: Let_def split: if_splits sum.splits)
  apply (auto simp: scalar_token_def mkToken_def)
  done

lemma tokenizeSegments_cases:
  assumes "tokenizeSegments sd ss first n = Inr ts"
  obtains (finished) "getline ss CHR '','' = None" "ts = []"
  | (segment) seg ss' vts rts where
      "getline ss CHR '','' = Some (seg, ss')"
      "tokenizeValue sd seg n = Inr vts"
      "tokenizeSegments sd ss' False n = Inr rts"
      "ts = (if first then [] else [mkToken TOKEN_COMMA [] n 0]) @ vts @ rts"
proof -
  from assms have
    "(case getline ss CHR '','' of
        None \<Rightarrow> Inr []
      | Some (segment, ss') \<Rightarrow>
          (case tokenizeValue sd segment n of
             Inl e \<Rightarrow> Inl e
           | Inr ts \<Rightarrow>
               (case tokenizeSegments sd ss' False n of
                  Inl e \<Rightarrow> Inl e
                | Inr ts' \<Rightarrow>
                    Inr ((if first then [] else [mkToken TOKEN_COMMA [] n 0]) @ ts @ ts')))) = Inr ts"
    by (subst (asm) tokenizeSegments.simps)
  then show thesis
    by (auto split: option.splits sum.splits intro: finished segment)
qed

lemma tokenizeValue_tokens:
  "tokenizeValue sd valStr n = Inr ts \<Longrightarrow> t \<in> set ts \<Longrightarrow> value_token sd n t"
  "tokenizeSegments sd ss first n = Inr ts \<Longrightarrow> t \<in> set ts \<Longrightarrow> value_token sd n t"
proof (induct sd valStr n and sd ss first n arbitrary: ts t and ts t
       rule: tokenizeValue_tokenizeSegments.induct)
  case (1 sd valStr lineNum)
  from "1.prems"(1) show ?case
  proof (cases rule: tokenizeValue_cases)
    case empty
    with "1.prems"(2) show ?thesis by simp
  next
    case (scalar u)
    with "1.prems"(2) show ?thesis by (auto simp: scalar_token_def value_token_def)
  next
    case (array inner)
    from "1.prems"(2) array(8) consider "t = mkToken TOKEN_ARRAY_START [] lineNum 0"
      | "t = mkToken TOKEN_ARRAY_END [] lineNum 0" | "t \<in> set inner"
      by auto
    then show ?thesis
    proof cases
      case 3
      from "1.hyps"[OF refl array(1-6) array(7) 3] show ?thesis .
    qed (simp_all add: value_token_def mkToken_def)
  qed
next
  case (2 sd ss first lineNum)
  from "2.prems"(1) show ?case
  proof (cases rule: tokenizeSegments_cases)
    case finished
    with "2.prems"(2) show ?thesis by simp
  next
    case (segment seg ss' vts rts)
    from "2.prems"(2) segment(4) consider "t = mkToken TOKEN_COMMA [] lineNum 0"
      | "t \<in> set vts" | "t \<in> set rts"
      by (auto split: if_splits)
    then show ?thesis
    proof cases
      case 1
      then show ?thesis by (simp add: value_token_def mkToken_def)
    next
      case 2
      from "2.hyps"(1)[OF segment(1) refl segment(2) 2] show ?thesis .
    next
      case 3
      from "2.hyps"(2)[OF segment(1) refl segment(2) segment(3) 3] show ?thesis .
    qed
  qed
qed

lemma tokenizeLine_cases:
  assumes "tokenizeLine sd lineStr n = Inr ts"
  obtains (sect) stage name where
      "ts = [mkToken TOKEN_SECTION_OPEN [] n stage, mkToken TOKEN_IDENTIFIER name n 0,
             mkToken TOKEN_SECTION_CLOSE [] n stage]"
  | (keyval) key valStr vts where
      "tokenizeValue sd valStr n = Inr vts"
      "ts = mkToken TOKEN_IDENTIFIER key n 0 # mkToken TOKEN_VINE_WHIP [] n 0 # vts"
  using assms
  by (auto simp: tokenizeLine_def sectionTokens_def split: if_splits option.splits sum.splits)

lemma lexLine_cases:
  assumes "lexLine sd lineStr n = Inr ts"
  obtains (skipped) "ts = []"
  | (sect) "section_statement n ts"
  | (keyval) "keyvalue_statement sd n ts"
proof -
  from assms consider "ts = []"
    | lv ts' str where "tokenizeLine sd str n = Inr ts'" "ts = mkToken TOKEN_INDENT [] n lv # ts'"
    by (auto simp: lexLine_def Let_def split: if_splits option.splits sum.splits)
  then show thesis
  proof cases
    case 1
    then show ?thesis by (rule skipped)
  next
    case 2
    from 2(1) show ?thesis
    proof (cases rule: tokenizeLine_cases)
      case (sect stage name)
      with 2(2) show ?thesis
        by (intro that(2)) (auto simp: section_statement_def)
    next
      case (keyval key valStr vts)
      with 2(2) show ?thesis
        by (intro that(3)) (auto simp: keyvalue_statement_def)
    qed
  qed
qed

lemma tokenizeLoop_unfold:
  "tokenizeLoop sd ss lineNum firstLine =
     (case getline ss CHR 0x0A of
        None \<Rightarrow> Inr [mkToken TOKEN_EOF [] lineNum 0]
      | Some (lineStr, ss') \<Rightarrow>
          if firstLine then
            (if stripCR lineStr \<noteq> ''BULBA!'' then Inl HeaderError
             else (case tokenizeLoop sd ss' (lineNum + 1) False of
                     Inl e \<Rightarrow> Inl e
                   | Inr ts \<Rightarrow> Inr (mkToken TOKEN_HEADER ''BULBA!'' (lineNum + 1) 0 # ts)))
          else
            (case lexLine sd (stripCR lineStr) (lineNum + 1) of
               Inl e \<Rightarrow> Inl e
             | Inr ts \<Rightarrow>
                 (case tokenizeLoop sd ss' (lineNum + 1) False of
                    Inl e \<Rightarrow> Inl e
                  | Inr ts' \<Rightarrow> Inr (ts @ ts'))))"
  by (rule tokenizeLoop.simps)

lemma tokenizeLoop_body_cases:
  assumes "tokenizeLoop sd ss n False = Inr toks"
  obtains (finished) "getline ss CHR 0x0A = None" "toks = [mkToken TOKEN_EOF [] n 0]"
  | (line) lineStr ss' ts ts' where
      "getline ss CHR 0x0A = Some (lineStr, ss')"
      "lexLine sd (stripCR lineStr) (n + 1) = Inr ts"
      "tokenizeLoop sd ss' (n + 1) False = Inr ts'"
      "toks = ts @ ts'"
  using assms
  by (subst (asm) tokenizeLoop_unfold) (auto split: option.splits sum.splits)

lemma tokenizeLoop_lexed_body:
  "tokenizeLoop sd ss n firstLine = Inr toks \<Longrightarrow> \<not> firstLine \<Longrightarrow> lexed_body sd toks"
proof (induct sd ss n firstLine arbitrary: toks rule: tokenizeLoop.induct)
  case (1 sd ss lineNum firstLine)
  from "1.prems" have tl: "tokenizeLoop sd ss lineNum False = Inr toks" and nf: "\<not> firstLine"
    by simp_all
  from tl show ?case
  proof (cases rule: tokenizeLoop_body_cases)
    case finished
    then show ?thesis by (simp add: lexed_body.eof)
  next
    case (line lineStr ss' ts ts')
    have rest: "lexed_body sd ts'"
      using "1.hyps"(2)[OF line(1) refl nf line(2) line(3)] by simp
    from line(2) show ?thesis
    proof (cases rule: lexLine_cases)
      case skipped
      with rest line(4) show ?thesis by simp
    next
      case sect
      with rest line(4) show ?thesis by (auto intro: lexed_body.sect)
    next
      case keyval
      with rest line(4) show ?thesis by (auto intro: lexed_body.keyval)
    qed
  qed
qed

lemma tokenize_cases:
  assumes "tokenize sd content = Inr toks"
  obtains (empty) "content = []" "toks = [mkToken TOKEN_EOF [] 0 0]"
  | (header) lineStr ss' body where
      "getline content CHR 0x0A = Some (lineStr, ss')"
      "stripCR lineStr = ''BULBA!''"
      "tokenizeLoop sd ss' 1 False = Inr body"
      "toks = mkToken TOKEN_HEADER ''BULBA!'' 1 0 # body"
  using assms unfolding tokenize_def
  by (subst (asm) tokenizeLoop_unfold)
     (auto simp: getline_def split: option.splits sum.splits if_splits)

lemma value_token_lexed: "value_token sd (Suc n) t \<Longrightarrow> lexed_token sd n t"
  by (auto simp: value_token_def lexed_token_def)

lemma lexLine_tokens:
  assumes "lexLine sd lineStr (Suc n) = Inr ts" "t \<in> set ts"
  shows "lexed_token sd n t"
  using assms(1)
proof (cases rule: lexLine_cases)
  case skipped
  with assms(2) show ?thesis by simp
next
  case sect
  with assms(2) show ?thesis
    by (auto simp: section_statement_def lexed_token_def mkToken_def)
next
  case keyval
  then obtain lv key valStr vts where
    tv: "tokenizeValue sd valStr (Suc n) = Inr vts" and
    ts: "ts = mkToken TOKEN_INDENT [] (Suc n) lv # mkToken TOKEN_IDENTIFIER key (Suc n) 0
                 # mkToken TOKEN_VINE_WHIP [] (Suc n) 0 # vts"
    by (auto simp: keyvalue_statement_def)
  from assms(2) ts consider "t \<in> set vts" | "t \<notin> set vts" "t \<in> set (take 3 ts)"
    by auto
  then show ?thesis
  proof cases
    case 1
    from tokenizeValue_tokens(1)[OF tv 1] show ?thesis by (rule value_token_lexed)
  next
    case 2
    with ts show ?thesis by (auto simp: lexed_token_def mkToken_def)
  qed
qed

lemma lexed_token_mono: "lexed_token sd (Suc n) t \<Longrightarrow> lexed_token sd n t"
  by (auto simp: lexed_token_def)

lemma tokenizeLoop_tokens:
  "tokenizeLoop sd ss n firstLine = Inr toks \<Longrightarrow> \<not> firstLine \<Longrightarrow> t \<in> set toks
     \<Longrightarrow> lexed_token sd n t"
proof (induct sd ss n firstLine arbitrary: toks rule: tokenizeLoop.induct)
  case (1 sd ss lineNum firstLine)
  from "1.prems" have tl: "tokenizeLoop sd ss lineNum False = Inr toks" and nf: "\<not> firstLine"
    by simp_all
  from tl show ?case
  proof (cases rule: tokenizeLoop_body_cases)
    case finished
    with "1.prems"(3) show ?thesis by (simp add: lexed_token_def mkToken_def)
  next
    case (line lineStr ss' ts ts')
    from "1.prems"(3) line(4) consider "t \<in> set ts" | "t \<in> set ts'" by auto
    then show ?thesis
    proof cases
      case 1
      with line(2) show ?thesis by (auto intro: lexLine_tokens)
    next
      case 2
      have "lexed_token sd (lineNum + 1) t"
        using "1.hyps"(2)[OF line(1) refl nf line(2) line(3) _ 2] by simp
      then show ?thesis by (simp add: lexed_token_mono)
    qed
  qed
qed

lemma nested_tokens_lexed: "tokenize stod nested_input = Inr nested_tokens"
  by code_simp

subsection \<open>The parser reads back what the lexer emits\<close>

lemma parseNumber_succeeds:
  assumes "intConsumesAll lit \<or> floatConsumesAll sd lit"
  shows "\<exists>v. parseNumber sd lit = Inr v"
  using assms
  by (auto simp: parseNumber_def intConsumesAll_def floatConsumesAll_def Let_def
      split: option.splits)

lemma parseValue_start:
  assumes "parseValueFromTokens sd (t # ts) = Inr p"
  shows "type t \<noteq> TOKEN_ARRAY_END \<and> type t \<noteq> TOKEN_COMMA \<and> type t \<noteq> TOKEN_INDENT
         \<and> type t \<noteq> TOKEN_EOF"
  using assms by (auto split: if_splits)

lemma parse_back:
  "tokenizeValue sd valStr n = Inr vts \<Longrightarrow> vts \<noteq> []
     \<Longrightarrow> \<exists>v. \<forall>r. parseValueFromTokens sd (vts @ r) = Inr (v, r)"
  "tokenizeSegments sd ss first n = Inr sts
     \<Longrightarrow> \<exists>vs. \<forall>r arr e. type e = TOKEN_ARRAY_END
            \<longrightarrow> parseArray sd (sts @ e # r) arr = Inr (ARRAY (arr @ vs), r)"
proof (induct sd valStr n and sd ss first n arbitrary: vts and sts
       rule: tokenizeValue_tokenizeSegments.induct)
  case (1 sd valStr lineNum)
  from "1.prems"(1) show ?case
  proof (cases rule: tokenizeValue_cases)
    case empty
    with "1.prems"(2) show ?thesis by simp
  next
    case (scalar t)
    from scalar(2) consider "type t = TOKEN_STRING" | "type t = TOKEN_BOOL" | "type t = TOKEN_NULL"
      | "type t = TOKEN_NUMBER" "intConsumesAll (literal t) \<or> floatConsumesAll sd (literal t)"
      by (auto simp: scalar_token_def)
    then show ?thesis
    proof cases
      case 4
      from parseNumber_succeeds[OF 4(2)] obtain v where "parseNumber sd (literal t) = Inr v" ..
      with 4(1) scalar(1) show ?thesis by auto
    qed (use scalar(1) in auto)
  next
    case (array inner)
    from "1.hyps"[OF refl array(1-6) array(7)] obtain vs where
      vs: "\<forall>r arr e. type e = TOKEN_ARRAY_END
            \<longrightarrow> parseArray sd (inner @ e # r) arr = Inr (ARRAY (arr @ vs), r)"
      by blast
    have "parseValueFromTokens sd (vts @ r) = Inr (ARRAY vs, r)" for r
      using vs[rule_format, of "mkToken TOKEN_ARRAY_END [] lineNum 0" r "[]"] array(8)
      by (simp add: mkToken_def)
    then show ?thesis by blast
  qed
next
  case (2 sd ss first lineNum)
  from "2.prems"(1) show ?case
  proof (cases rule: tokenizeSegments_cases)
    case finished
    then show ?thesis by (intro exI[of _ "[]"]) simp
  next
    case (segment seg ss' vts rts)
    from "2.hyps"(2)[OF segment(1) refl segment(2) segment(3)] obtain vs where
      vs: "\<forall>r arr e. type e = TOKEN_ARRAY_END
            \<longrightarrow> parseArray sd (rts @ e # r) arr = Inr (ARRAY (arr @ vs), r)"
      by blast
    have comma: "parseArray sd ((if first then [] else [mkToken TOKEN_COMMA [] lineNum 0]) @ x) arr
                  = parseArray sd x arr" for x arr
      by (simp add: mkToken_def)
    show ?thesis
    proof (cases vts)
      case Nil
      with segment(4) comma vs show ?thesis
        by (intro exI[of _ vs]) simp
    next
      case (Cons t vts0)
      with "2.hyps"(1)[OF segment(1) refl segment(2)] obtain v where
        v: "\<forall>r. parseValueFromTokens sd (t # vts0 @ r) = Inr (v, r)"
        by auto
      have "parseArray sd (sts @ e # r) arr = Inr (ARRAY (arr @ v # vs), r)"
        if e: "type e = TOKEN_ARRAY_END" for r arr e
      proof -
        have "parseArray sd (sts @ e # r) arr = parseArray sd (t # vts0 @ rts @ e # r) arr"
          using segment(4) Cons comma[of "t # vts0 @ rts @ e # r" arr] by simp
        also have "\<dots> = parseArray sd (rts @ e # r) (arr @ [v])"
          using v[rule_format, of "rts @ e # r"]
            parseValue_start[OF v[rule_format, of "rts @ e # r"]]
          by simp
        also have "\<dots> = Inr (ARRAY ((arr @ [v]) @ vs), r)"
          using vs e by blast
        finally show ?thesis by simp
      qed
      then show ?thesis by blast
    qed
  qed
qed

lemma assignKey_rest:
  assumes "\<forall>r. parseValueFromTokens sd (vts @ r) = Inr (v, r)"
    and "assignKey sd st L k (w # vts @ r) = Inr (st', ts')"
  shows "ts' = r"
  using assms(2) assms(1)[rule_format, of r]
  by (auto simp: assignKey_def Let_def split: if_splits sum.splits)

lemma lexed_body_head:
  assumes "lexed_body sd body"
  obtains t ts where "body = t # ts" "type t = TOKEN_INDENT \<or> type t = TOKEN_EOF"
  using assms
  by (cases rule: lexed_body.cases)
     (auto simp: section_statement_def keyvalue_statement_def mkToken_def)

lemma section_statement_step:
  assumes "section_statement n stmt"
  obtains (throw) e where "loopBody sd st (stmt @ rest) = Throw e"
  | (continue) st' where "loopBody sd st (stmt @ rest) = Continue st' rest"
      "\<not> (\<exists>t \<in> set stmt. forbidden_key t)"
proof -
  from assms obtain lv stage name where
    stmt: "stmt = [mkToken TOKEN_INDENT [] n lv, mkToken TOKEN_SECTION_OPEN [] n stage,
                mkToken TOKEN_IDENTIFIER name n 0, mkToken TOKEN_SECTION_CLOSE [] n stage]"
    by (auto simp: section_statement_def)
  have lb: "loopBody sd st (stmt @ rest) =
      (case openSection st lv stage
              (mkToken TOKEN_IDENTIFIER name n 0 # mkToken TOKEN_SECTION_CLOSE [] n stage # rest) of
         Inl e \<Rightarrow> Throw e | Inr (st', ts') \<Rightarrow> Continue st' ts')"
    by (simp add: stmt loopBody_def mkToken_def)
  show thesis
  proof (cases "openSection st lv stage
              (mkToken TOKEN_IDENTIFIER name n 0 # mkToken TOKEN_SECTION_CLOSE [] n stage # rest)")
    case (Inl e)
    with lb show ?thesis by (intro throw[of e]) simp
  next
    case (Inr p)
    obtain st' ts' where p: "p = (st', ts')" by (cases p)
    from Inr p have "name \<noteq> ''Charizard''" and "ts' = rest"
      by (auto simp: openSection_def validateKey_def mkToken_def Let_def split: if_splits)
    with Inr p lb show ?thesis
      by (intro continue[of st']) (auto simp: stmt forbidden_key_def mkToken_def)
  qed
qed

lemma keyvalue_statement_step:
  assumes kv: "keyvalue_statement sd n stmt" and body: "lexed_body sd rest"
  obtains (throw) e where "loopBody sd st (stmt @ rest) = Throw e"
  | (continue) st' where "loopBody sd st (stmt @ rest) = Continue st' rest"
      "\<not> (\<exists>t \<in> set stmt. forbidden_key t)"
proof -
  from kv obtain lv key valStr vts where
    tv: "tokenizeValue sd valStr n = Inr vts" and
    stmt: "stmt = mkToken TOKEN_INDENT [] n lv # mkToken TOKEN_IDENTIFIER key n 0
                 # mkToken TOKEN_VINE_WHIP [] n 0 # vts"
    by (auto simp: keyvalue_statement_def)
  have novalue: "\<not> forbidden_key t" if "t \<in> set vts" for t
    using tokenizeValue_tokens(1)[OF tv that] by (auto simp: value_token_def forbidden_key_def)
  have lb: "loopBody sd st (stmt @ rest) =
      (case assignKey sd st lv (mkToken TOKEN_IDENTIFIER key n 0)
              (mkToken TOKEN_VINE_WHIP [] n 0 # vts @ rest) of
         Inl e \<Rightarrow> Throw e | Inr (st', ts') \<Rightarrow> Continue st' ts')"
    by (simp add: stmt loopBody_def mkToken_def)
  show thesis
  proof (cases "assignKey sd st lv (mkToken TOKEN_IDENTIFIER key n 0)
              (mkToken TOKEN_VINE_WHIP [] n 0 # vts @ rest)")
    case (Inl e)
    with lb show ?thesis by (intro throw[of e]) simp
  next
    case (Inr p)
    obtain st' ts' where p: "p = (st', ts')" by (cases p)
    from Inr p have keyok: "key \<noteq> ''Charizard''"
      by (auto simp: assignKey_def validateKey_def mkToken_def Let_def split: if_splits)
    have "vts \<noteq> []"
    proof
      assume "vts = []"
      moreover from body obtain t ts where "rest = t # ts"
        "type t = TOKEN_INDENT \<or> type t = TOKEN_EOF"
        by (rule lexed_body_head)
      ultimately have "\<exists>e. assignKey sd st lv (mkToken TOKEN_IDENTIFIER key n 0)
              (mkToken TOKEN_VINE_WHIP [] n 0 # vts @ rest) = Inl e"
        by (auto simp: assignKey_def validateKey_def mkToken_def Let_def)
      with Inr show False by simp
    qed
    with parse_back(1)[OF tv] obtain v where
      "\<forall>r. parseValueFromTokens sd (vts @ r) = Inr (v, r)" by blast
    with Inr p have "ts' = rest"
      by (auto dest: assignKey_rest)
    with Inr p lb have "loopBody sd st (stmt @ rest) = Continue st' rest" by simp
    moreover have "\<not> (\<exists>t \<in> set stmt. forbidden_key t)"
      using keyok novalue by (auto simp: stmt forbidden_key_def mkToken_def)
    ultimately show ?thesis by (rule continue)
  qed
qed

lemma lexed_body_forbidden_fails:
  assumes "lexed_body sd body" and "\<exists>t \<in> set body. forbidden_key t"
  shows "\<exists>e. parseLoop sd st body = Inl e"
  using assms
proof (induction arbitrary: st rule: lexed_body.induct)
  case (eof n)
  then show ?case by (simp add: forbidden_key_def mkToken_def)
next
  case (sect n stmt rest)
  from sect.hyps(1) show ?case
  proof (cases rule: section_statement_step[where sd = sd and st = st and rest = rest])
    case (throw e)
    then show ?thesis by (auto dest: parseLoop_Throw)
  next
    case (continue st')
    with sect.prems have "\<exists>t \<in> set rest. forbidden_key t" by auto
    from sect.IH[OF this] continue(1) show ?thesis
      by (simp add: parseLoop_Continue)
  qed
next
  case (keyval n stmt rest)
  from keyval.hyps(1,2) show ?case
  proof (cases rule: keyvalue_statement_step[where st = st])
    case (throw e)
    then show ?thesis by (auto dest: parseLoop_Throw)
  next
    case (continue st')
    with keyval.prems have "\<exists>t \<in> set rest. forbidden_key t" by auto
    from keyval.IH[OF this] continue(1) show ?thesis
      by (simp add: parseLoop_Continue)
  qed
qed

lemma forbidden_key_rejected:
  assumes tk: "tokenize sd content = Inr toks" and bad: "\<exists>t \<in> set toks. forbidden_key t"
  shows "\<exists>e. parse sd content = Inl e"
  using tk
proof (cases rule: tokenize_cases)
  case empty
  with bad show ?thesis by (simp add: forbidden_key_def mkToken_def)
next
  case (header lineStr ss' body)
  from header(3) have lb: "lexed_body sd body"
    by (rule tokenizeLoop_lexed_body) simp
  from bad header(4) have "\<exists>t \<in> set body. forbidden_key t"
    by (auto simp: forbidden_key_def mkToken_def)
  from lexed_body_forbidden_fails[OF lb this] obtain e where
    "parseLoop sd initial_state body = Inl e" by blast
  moreover have "parseLoop sd initial_state toks = parseLoop sd initial_state body"
    unfolding header(4) by (rule parseLoop_Continue) (simp add: loopBody_def mkToken_def)
  ultimately show ?thesis
    using tk by (simp add: parse_def)
qed

subsection \<open>A key without a value\<close>

lemma tokenizeValue_blank: "trim valStr = [] \<Longrightarrow> tokenizeValue sd valStr n = Inr []"
  by (subst tokenizeValue.simps) simp

lemma missing_value_append:
  assumes mv: "missing_value (stmt @ rest)"
    and novine: "\<And>pre w us. stmt = pre @ w # us \<Longrightarrow> type w = TOKEN_VINE_WHIP
        \<Longrightarrow> us \<noteq> [] \<and> type (hd us) \<noteq> TOKEN_INDENT \<and> type (hd us) \<noteq> TOKEN_EOF"
  shows "missing_value rest"
proof -
  from mv obtain pre w t post where
    eq: "stmt @ rest = pre @ w # t # post" and w: "type w = TOKEN_VINE_WHIP"
    and t: "type t = TOKEN_INDENT \<or> type t = TOKEN_EOF"
    by (auto simp: missing_value_def)
  from eq consider us where "stmt = pre @ us" "us @ rest = w # t # post"
    | us where "stmt @ us = pre" "rest = us @ w # t # post"
    by (auto simp: append_eq_append_conv2)
  then show ?thesis
  proof cases
    case 1
    show ?thesis
    proof (cases us)
      case Nil
      with 1 w t show ?thesis
        by (auto simp: missing_value_def intro!: exI[of _ "[]"])
    next
      case (Cons u us')
      with 1 have u: "u = w" and rest': "us' @ rest = t # post" by simp_all
      from 1(1) Cons u have "stmt = pre @ w # us'" by simp
      from novine[OF this w] have "us' \<noteq> []" "type (hd us') \<noteq> TOKEN_INDENT"
        "type (hd us') \<noteq> TOKEN_EOF" by simp_all
      with rest' t show ?thesis by (cases us') auto
    qed
  next
    case 2
    with w t show ?thesis by (auto simp: missing_value_def)
  qed
qed

lemma section_statement_no_vine:
  assumes "section_statement n stmt" "stmt = pre @ w # us" "type w = TOKEN_VINE_WHIP"
  shows False
proof -
  from assms(2) have "w \<in> set stmt" by simp
  with assms(1,3) show False
    by (auto simp: section_statement_def mkToken_def)
qed

lemma lexed_body_missing_value_fails:
  assumes "lexed_body sd body" and "missing_value body"
  shows "\<exists>e. parseLoop sd st body = Inl e"
  using assms
proof (induction arbitrary: st rule: lexed_body.induct)
  case (eof n)
  then show ?case by (auto simp: missing_value_def Cons_eq_append_conv)
next
  case (sect n stmt rest)
  from sect.prems have mv: "missing_value rest"
    by (rule missing_value_append) (use sect.hyps(1) in \<open>auto dest: section_statement_no_vine\<close>)
  from sect.hyps(1) show ?case
  proof (cases rule: section_statement_step[where sd = sd and st = st and rest = rest])
    case (throw e)
    then show ?thesis by (auto dest: parseLoop_Throw)
  next
    case (continue st')
    from sect.IH[OF mv] continue(1) show ?thesis
      by (simp add: parseLoop_Continue)
  qed
next
  case (keyval n stmt rest)
  from keyval.hyps(1) obtain lv key valStr vts where
    tv: "tokenizeValue sd valStr n = Inr vts" and
    stmt: "stmt = mkToken TOKEN_INDENT [] n lv # mkToken TOKEN_IDENTIFIER key n 0
                 # mkToken TOKEN_VINE_WHIP [] n 0 # vts"
    by (auto simp: keyvalue_statement_def)
  from keyval.hyps(1,2) show ?case
  proof (cases rule: keyvalue_statement_step[where st = st])
    case (throw e)
    then show ?thesis by (auto dest: parseLoop_Throw)
  next
    case (continue st')
    have vts: "vts \<noteq> []"
    proof
      assume "vts = []"
      moreover from keyval.hyps(2) obtain t ts where "rest = t # ts"
        "type t = TOKEN_INDENT \<or> type t = TOKEN_EOF"
        by (rule lexed_body_head)
      ultimately have "\<exists>e. loopBody sd st (stmt @ rest) = Throw e"
        by (auto simp: stmt loopBody_def assignKey_def validateKey_def mkToken_def Let_def)
      with continue(1) show False by simp
    qed
    have "missing_value rest"
    proof (rule missing_value_append[OF keyval.prems])
      fix pre w us
      assume dec: "stmt = pre @ w # us" and w: "type w = TOKEN_VINE_WHIP"
      have notvts: "w \<notin> set vts"
        using tokenizeValue_tokens(1)[OF tv, of w] w by (auto simp: value_token_def)
      from dec stmt have "pre @ w # us = mkToken TOKEN_INDENT [] n lv
          # mkToken TOKEN_IDENTIFIER key n 0 # mkToken TOKEN_VINE_WHIP [] n 0 # vts"
        by simp
      with w notvts have "us = vts"
        by (auto simp: append_eq_Cons_conv mkToken_def)
      moreover from vts obtain v vs where "vts = v # vs" by (cases vts) auto
      moreover from this tokenizeValue_tokens(1)[OF tv, of v]
      have "type v \<noteq> TOKEN_INDENT \<and> type v \<noteq> TOKEN_EOF"
        by (auto simp: value_token_def)
      ultimately show "us \<noteq> [] \<and> type (hd us) \<noteq> TOKEN_INDENT \<and> type (hd us) \<noteq> TOKEN_EOF"
        by simp
    qed
    from keyval.IH[OF this] continue(1) show ?thesis
      by (simp add: parseLoop_Continue)
  qed
qed

lemma missing_value_rejected:
  assumes tk: "tokenize sd content = Inr toks" and mv: "missing_value toks"
  shows "\<exists>e. parse sd content = Inl e"
  using tk
proof (cases rule: tokenize_cases)
  case empty
  with mv show ?thesis by (auto simp: missing_value_def Cons_eq_append_conv)
next
  case (header lineStr ss' body)
  from header(3) have lb: "lexed_body sd body"
    by (rule tokenizeLoop_lexed_body) simp
  have "missing_value body"
  proof (rule missing_value_append[where stmt = "[mkToken TOKEN_HEADER ''BULBA!'' 1 0]"])
    from mv header(4) show "missing_value ([mkToken TOKEN_HEADER ''BULBA!'' 1 0] @ body)"
      by simp
  next
    fix pre w us
    assume "[mkToken TOKEN_HEADER ''BULBA!'' 1 0] = pre @ w # us" "type w = TOKEN_VINE_WHIP"
    then show "us \<noteq> [] \<and> type (hd us) \<noteq> TOKEN_INDENT \<and> type (hd us) \<noteq> TOKEN_EOF"
      by (auto simp: Cons_eq_append_conv mkToken_def)
  qed
  from lexed_body_missing_value_fails[OF lb this] obtain e where
    "parseLoop sd initial_state body = Inl e" by blast
  moreover have "parseLoop sd initial_state toks = parseLoop sd initial_state body"
    unfolding header(4) by (rule parseLoop_Continue) (simp add: loopBody_def mkToken_def)
  ultimately show ?thesis
    using tk by (simp add: parse_def)
qed

subsection \<open>Binding a key twice\<close>

lemma heap_update_twice:
  "h[a := AList.update k v2 (h[a := AList.update k v1 (h ! a)] ! a)]
     = h[a := AList.update k v2 (h ! a)]"
  by (cases "a < length h") (simp_all add: list_update_beyond not_less)

lemma assignKey_twice:
  assumes pv1: "\<forall>r. parseValueFromTokens sd (vts1 @ r) = Inr (v1, r)"
    and ty: "type w1 = TOKEN_VINE_WHIP"
    and lv: "level i1 = level i2" and key: "literal k1 = literal k2"
  shows "(case assignKey sd st (level i1) k1 (w1 # vts1 @ i2 # k2 # rest) of
            Inl e \<Rightarrow> Inl e
          | Inr (st', ts') \<Rightarrow>
              (case assignKey sd st' (level i2) k2 rest of
                 Inl e \<Rightarrow> Inl e | Inr (st'', ts'') \<Rightarrow> Inr (st'', ts'')))
         = assignKey sd st (level i2) k2 rest"
  using pv1[rule_format, of "i2 # k2 # rest"] ty lv key
  by (auto simp: assignKey_def Let_def validateKey_def heap_update_twice
      split: if_splits sum.splits list.splits)

lemma parseLoop_rebinding:
  assumes ty: "type i1 = TOKEN_INDENT" "type k1 = TOKEN_IDENTIFIER" "type w1 = TOKEN_VINE_WHIP"
      "type i2 = TOKEN_INDENT" "type k2 = TOKEN_IDENTIFIER"
    and same: "level i1 = level i2" "literal k1 = literal k2"
    and pv1: "\<forall>r. parseValueFromTokens sd (vts1 @ r) = Inr (v1, r)"
  shows "parseLoop sd st (i1 # k1 # w1 # vts1 @ i2 # k2 # rest) = parseLoop sd st (i2 # k2 # rest)"
proof (cases "assignKey sd st (level i1) k1 (w1 # vts1 @ i2 # k2 # rest)")
  case (Inl e)
  with assignKey_twice[OF pv1 ty(3) same, where st = st and rest = rest]
  have "assignKey sd st (level i2) k2 rest = Inl e" by simp
  with Inl ty show ?thesis
    by (simp add: parseLoop_keyValue)
next
  case (Inr p)
  obtain st' ts' where p: "p = (st', ts')" by (cases p)
  with Inr pv1 have ts': "ts' = i2 # k2 # rest"
    by (auto dest: assignKey_rest)
  from assignKey_twice[OF pv1 ty(3) same, where st = st and rest = rest] Inr p
  have eq: "(case assignKey sd st' (level i2) k2 rest of
                 Inl e \<Rightarrow> Inl e | Inr (st'', ts'') \<Rightarrow> Inr (st'', ts''))
            = assignKey sd st (level i2) k2 rest"
    by simp
  have "parseLoop sd st (i1 # k1 # w1 # vts1 @ i2 # k2 # rest) = parseLoop sd st' (i2 # k2 # rest)"
    using Inr p ts' ty by (simp add: parseLoop_keyValue)
  also have "\<dots> = (case assignKey sd st' (level i2) k2 rest of
        Inl e \<Rightarrow> Inl e | Inr (st'', ts'') \<Rightarrow> parseLoop sd st'' ts'')"
    using ty by (simp add: parseLoop_keyValue)
  also have "\<dots> = (case assignKey sd st (level i2) k2 rest of
        Inl e \<Rightarrow> Inl e | Inr (st'', ts'') \<Rightarrow> parseLoop sd st'' ts'')"
    using eq by (auto split: sum.splits)
  also have "\<dots> = parseLoop sd st (i2 # k2 # rest)"
    using ty by (simp add: parseLoop_keyValue)
  finally show ?thesis .
qed

lemma assignKey_binds:
  assumes ok: "assignKey sd st L k ts = Inr (st', ts')"
    and top: "ctx_map (last (stack st')) < length (heap st)"
  shows "\<exists>v. parseValueFromTokens sd (tl ts) = Inr (v, ts')
           \<and> heap st' ! ctx_map (last (stack st'))
               = AList.update (literal k) v (heap st ! ctx_map (last (stack st')))
           \<and> map_of (heap st' ! ctx_map (last (stack st'))) (literal k) = Some v"
  using ok top
  by (auto simp: assignKey_def Let_def update_conv' split: if_splits sum.splits list.splits)

lemma openSection_fresh:
  assumes ok: "openSection st L S ts = Inr (st', ts')"
    and parent: "ctx_map (last (take S (stack st))) < length (heap st)"
  shows "length (heap st') = length (heap st) + 1
       \<and> heap st' ! ctx_map (last (take S (stack st)))
            = AList.update (literal (hd ts)) (OBJECT (length (heap st)))
                (heap st ! ctx_map (last (take S (stack st))))
       \<and> map_of (heap st' ! ctx_map (last (take S (stack st)))) (literal (hd ts))
            = Some (OBJECT (length (heap st)))
       \<and> heap st' ! length (heap st) = []
       \<and> last (stack st') = \<lparr>ctx_map = length (heap st), ctx_level = S\<rparr>
       \<and> resolve (heap st') (ctx_map (last (take S (stack st)))) (OBJECT (length (heap st)))
            = DObject []"
  using ok parent
  by (auto simp: openSection_def Let_def update_conv' nth_append
      split: if_splits sum.splits list.splits)

lemma openSection_ignores_heap:
  "map_sum id snd (openSection (st\<lparr>heap := h\<rparr>) L S ts) = map_sum id snd (openSection st L S ts)"
  by (auto simp: openSection_def Let_def split: if_splits sum.splits list.splits)

text \<open>
  Whether a statement fails, and how, does not depend on the store: it depends on the tokens,
  on the depth of the stack and on the current level.
\<close>

lemma assignKey_ignores_heap:
  "map_sum id snd (assignKey sd (st\<lparr>heap := h\<rparr>) L k ts) = map_sum id snd (assignKey sd st L k ts)"
  by (simp add: assignKey_def Let_def split: sum.splits list.splits prod.splits)

lemma assignKey_succeeds:
  assumes "L \<le> currentLevel st" "literal k \<noteq> ''Charizard''" "type w = TOKEN_VINE_WHIP"
    and "parseValueFromTokens sd ts = Inr (v, rest)"
  shows "\<exists>st'. assignKey sd st L k (w # ts) = Inr (st', rest)"
  using assms by (simp add: assignKey_def validateKey_def Let_def)

lemma openSection_succeeds:
  assumes "int L = int S - 1" "S \<le> length (stack st)" "type k = TOKEN_IDENTIFIER"
    "literal k \<noteq> ''Charizard''" "type c = TOKEN_SECTION_CLOSE"
  shows "\<exists>st'. openSection st L S (k # c # rest) = Inr (st', rest)"
  using assms by (simp add: openSection_def validateKey_def Let_def)

lemma openSection_depth:
  assumes "length (stack st) = length (stack st2)"
  shows "case openSection st L S ts of
           Inl e \<Rightarrow> openSection st2 L S ts = Inl e
         | Inr (st', ts') \<Rightarrow>
             (\<exists>st2'. openSection st2 L S ts = Inr (st2', ts')
                \<and> length (stack st') = length (stack st2')
                \<and> currentLevel st' = currentLevel st2')"
  using assms
  by (simp add: openSection_def validateKey_def Let_def split: list.splits)

lemma assignKey_depth:
  assumes "length (stack st) = length (stack st2)" "currentLevel st = currentLevel st2"
  shows "case assignKey sd st L k ts of
           Inl e \<Rightarrow> assignKey sd st2 L k ts = Inl e
         | Inr (st', ts') \<Rightarrow>
             (\<exists>st2'. assignKey sd st2 L k ts = Inr (st2', ts')
                \<and> length (stack st') = length (stack st2')
                \<and> currentLevel st' = currentLevel st2')"
  using assms
  by (simp add: assignKey_def validateKey_def Let_def split: list.splits sum.splits prod.splits)

lemma loopBody_depth:
  assumes "length (stack st) = length (stack st2)" "currentLevel st = currentLevel st2"
  shows "case loopBody sd st ts of
           Throw e \<Rightarrow> loopBody sd st2 ts = Throw e
         | Break \<Rightarrow> loopBody sd st2 ts = Break
         | Continue st' ts' \<Rightarrow>
             (\<exists>st2'. loopBody sd st2 ts = Continue st2' ts'
                \<and> length (stack st') = length (stack st2')
                \<and> currentLevel st' = currentLevel st2')"
proof (cases ts)
  case Nil
  then show ?thesis by (simp add: loopBody_def)
next
  case (Cons token ts0)
  show ?thesis
  proof (cases ts0)
    case Nil
    with Cons assms show ?thesis by (simp add: loopBody_def)
  next
    case (Cons nextToken ts1)
    note ts = \<open>ts = token # ts0\<close> Cons
    consider (sect) "type token = TOKEN_INDENT" "type nextToken = TOKEN_SECTION_OPEN"
      | (keyval) "type token = TOKEN_INDENT" "type nextToken = TOKEN_IDENTIFIER"
      | (other) "type token \<noteq> TOKEN_INDENT
          \<or> (type nextToken \<noteq> TOKEN_SECTION_OPEN \<and> type nextToken \<noteq> TOKEN_IDENTIFIER)"
      by blast
    then show ?thesis
    proof cases
      case sect
      with openSection_depth[OF assms(1), of "level token" "level nextToken" ts1]
      show ?thesis
        by (auto simp: ts loopBody_def split: sum.splits)
    next
      case keyval
      with assignKey_depth[OF assms, of sd "level token" nextToken ts1]
      show ?thesis
        by (auto simp: ts loopBody_def split: sum.splits)
    next
      case other
      with assms show ?thesis
        by (auto simp: ts loopBody_def)
    qed
  qed
qed

lemma parseLoop_depth:
  assumes "length (stack st) = length (stack st2)" "currentLevel st = currentLevel st2"
  shows "map_sum id (\<lambda>s. (length (stack s), currentLevel s)) (parseLoop sd st ts)
       = map_sum id (\<lambda>s. (length (stack s), currentLevel s)) (parseLoop sd st2 ts)"
  using assms
proof (induct sd st ts arbitrary: st2 rule: parseLoop.induct)
  case (1 sd st tokens)
  note rel = loopBody_depth[OF "1.prems", of sd tokens]
  show ?case
  proof (cases "loopBody sd st tokens")
    case (Throw e)
    with rel have "loopBody sd st2 tokens = Throw e" by simp
    with Throw show ?thesis by (simp add: parseLoop_Throw)
  next
    case Break
    with rel have "loopBody sd st2 tokens = Break" by simp
    with Break "1.prems" show ?thesis
      by (simp add: parseLoop.simps[of sd st tokens] parseLoop.simps[of sd st2 tokens])
  next
    case (Continue st1 ts1)
    with rel obtain st21 where c2: "loopBody sd st2 tokens = Continue st21 ts1"
      and d: "length (stack st1) = length (stack st21)" "currentLevel st1 = currentLevel st21"
      by auto
    from "1.hyps"[OF Continue d] parseLoop_Continue[OF Continue] parseLoop_Continue[OF c2]
    show ?thesis by simp
  qed
qed

lemma parseLoop_skip_binding:
  assumes "type iA = TOKEN_INDENT" "type kA = TOKEN_IDENTIFIER" "type wA = TOKEN_VINE_WHIP"
    and "level iA = currentLevel st" and "literal kA \<noteq> ''Charizard''"
    and "parseValueFromTokens sd (vtsA @ rest) = Inr (vA, rest)"
  shows "map_sum id (\<lambda>s. (length (stack s), currentLevel s))
           (parseLoop sd st (iA # kA # wA # vtsA @ rest))
       = map_sum id (\<lambda>s. (length (stack s), currentLevel s)) (parseLoop sd st rest)"
proof -
  define h where "h = (heap st)[ctx_map (last (stack st)) :=
      AList.update (literal kA) vA (heap st ! ctx_map (last (stack st)))]"
  from assms have "assignKey sd st (level iA) kA (wA # vtsA @ rest)
      = Inr (st\<lparr>heap := h\<rparr>, rest)"
    by (simp add: assignKey_def validateKey_def Let_def h_def)
  with assms(1,2) have "parseLoop sd st (iA # kA # wA # vtsA @ rest)
      = parseLoop sd (st\<lparr>heap := h\<rparr>) rest"
    by (simp add: parseLoop_keyValue)
  moreover have "map_sum id (\<lambda>s. (length (stack s), currentLevel s))
      (parseLoop sd (st\<lparr>heap := h\<rparr>) rest)
    = map_sum id (\<lambda>s. (length (stack s), currentLevel s)) (parseLoop sd st rest)"
    by (rule parseLoop_depth) simp_all
  ultimately show ?thesis by simp
qed

subsection \<open>The store and the keys of the objects\<close>

lemma set_update_cases:
  "kv \<in> set (AList.update k v al) \<Longrightarrow> kv = (k, v) \<or> kv \<in> set al"
  by (induction al) (auto split: if_splits)

lemma parseValue_object_free:
  "parseValueFromTokens sd ts = Inr (v, ts') \<Longrightarrow> object_free v"
  "parseArray sd ts arr = Inr (v, ts') \<Longrightarrow> \<forall>x \<in> set arr. object_free x \<Longrightarrow> object_free v"
proof (induct sd ts and sd ts arr arbitrary: v ts' and v ts'
       rule: parseValueFromTokens_parseArray.induct)
  case (2 sd token ts)
  then show ?case
    by (auto simp: parseNumber_def Let_def split: if_splits sum.splits option.splits)
next
  case (4 sd t ts arr)
  show ?case
  proof (cases "type t = TOKEN_ARRAY_END \<or> type t = TOKEN_COMMA")
    case True
    with 4 show ?thesis by (auto split: if_splits)
  next
    case False
    with "4.prems"(1) obtain w rest where
      pv: "parseValueFromTokens sd (t # ts) = Inr (w, rest)" and
      pa: "parseArray sd rest (arr @ [w]) = Inr (v, ts')"
      by (auto split: sum.splits)
    from "4.hyps"(2)[OF _ _ pv] False have "object_free w" by simp
    with "4.prems"(2) have "\<forall>x \<in> set (arr @ [w]). object_free x" by simp
    with "4.hyps"(3)[OF _ _ pv _ pa] False show ?thesis by simp
  qed
qed simp_all

lemma keys_allowed_update:
  assumes "\<forall>m \<in> set h. ''Charizard'' \<notin> fst ` set m" and "k \<noteq> ''Charizard''"
  shows "\<forall>m \<in> set (h[a := AList.update k v (h ! a)]). ''Charizard'' \<notin> fst ` set m"
proof (cases "a < length h")
  case True
  then have "h ! a \<in> set h" by simp
  with assms have "''Charizard'' \<notin> fst ` set (AList.update k v (h ! a))"
    by (simp add: dom_update)
  with assms(1) show ?thesis
    using set_update_subset_insert[of h a "AList.update k v (h ! a)"] by blast
next
  case False
  with assms(1) show ?thesis by (simp add: list_update_beyond)
qed

lemma loopBody_keys_allowed:
  assumes "keys_allowed st" and "loopBody sd st ts = Continue st' ts'"
  shows "keys_allowed st'"
proof -
  from assms(2) consider "st' = st"
    | k v a where "k \<noteq> ''Charizard''" "heap st' = (heap st)[a := AList.update k v (heap st ! a)]"
    | k v a where "k \<noteq> ''Charizard''"
        "heap st' = (heap st)[a := AList.update k v (heap st ! a)] @ [[]]"
    by (auto simp: loopBody_def openSection_def assignKey_def validateKey_def Let_def
        split: list.splits if_splits sum.splits)
  then show ?thesis
  proof cases
    case 1
    with assms(1) show ?thesis by simp
  next
    case 2
    with assms(1) keys_allowed_update[of "heap st" k a v] show ?thesis
      by (simp add: keys_allowed_def)
  next
    case 3
    with assms(1) keys_allowed_update[of "heap st" k a v] show ?thesis
      by (simp add: keys_allowed_def)
  qed
qed

lemma object_free_well_placed: "object_free v \<Longrightarrow> well_placed n a v"
  by (cases v) (simp_all add: well_placed_def)

lemma well_placed_mono: "well_placed n a v \<Longrightarrow> n \<le> m \<Longrightarrow> well_placed m a v"
  by (cases v) (simp_all add: well_placed_def)

lemma assignKey_store_invariant:
  assumes inv: "store_invariant st" and ok: "assignKey sd st L k ts = Inr (st', ts')"
  shows "store_invariant st'"
proof -
  from ok obtain v a ts0 where
    pv: "parseValueFromTokens sd ts0 = Inr (v, ts')" and
    hp: "heap st' = (heap st)[a := AList.update (literal k) v (heap st ! a)]" and
    stk': "stack st' = stack st \<or> stack st' = take (L + 1) (stack st)"
    by (auto simp: assignKey_def Let_def split: if_splits sum.splits list.splits)
  from pv have v: "object_free v" by (rule parseValue_object_free(1))
  from stk' have stk: "set (stack st') \<subseteq> set (stack st)"
    by (auto dest: in_set_takeD)
  have len: "length (heap st') = length (heap st)" by (simp add: hp)
  have "well_placed (length (heap st)) b (snd kv)"
    if b: "b < length (heap st)" and kv: "kv \<in> set (heap st' ! b)" for b kv
  proof (cases "b = a")
    case True
    with b kv hp have "kv \<in> set (AList.update (literal k) v (heap st ! a))" by simp
    then have "kv = (literal k, v) \<or> kv \<in> set (heap st ! a)" by (rule set_update_cases)
    with v inv b True show ?thesis
      by (auto simp: store_invariant_def object_free_well_placed)
  next
    case False
    with b kv hp inv show ?thesis by (auto simp: store_invariant_def)
  qed
  with inv stk len show ?thesis
    by (auto simp: store_invariant_def)
qed

lemma openSection_store_invariant:
  assumes inv: "store_invariant st" and ok: "openSection st L S ts = Inr (st', ts')"
  shows "store_invariant st'"
proof -
  define n where "n = length (heap st)"
  from ok obtain name a where
    a: "a = ctx_map (last (take S (stack st)))" and
    hp: "heap st' = (heap st)[a := AList.update name (OBJECT n) (heap st ! a)] @ [[]]" and
    stk: "stack st' = take S (stack st) @ [\<lparr>ctx_map = n, ctx_level = S\<rparr>]" and
    S: "0 < S" "S \<le> length (stack st)"
    by (auto simp: openSection_def Let_def n_def split: if_splits sum.splits list.splits)
  have len: "length (heap st') = Suc n" by (simp add: hp n_def)
  from S have "take S (stack st) \<noteq> []" by auto
  then have "last (take S (stack st)) \<in> set (stack st)"
    by (meson in_set_takeD last_in_set)
  with inv a have an: "a < n" by (simp add: store_invariant_def n_def)
  have frames: "\<forall>c \<in> set (stack st'). ctx_map c < Suc n"
    using inv by (auto simp: stk store_invariant_def n_def dest!: in_set_takeD)
  have "well_placed (Suc n) b (snd kv)"
    if b: "b < Suc n" and kv: "kv \<in> set (heap st' ! b)" for b kv
  proof -
    consider "b = n" | "b = a" | "b < n" "b \<noteq> a" using b by fastforce
    then show ?thesis
    proof cases
      case 1
      with kv show ?thesis by (simp add: hp nth_append n_def)
    next
      case 2
      with kv an have "kv \<in> set (AList.update name (OBJECT n) (heap st ! a))"
        by (simp add: hp nth_append n_def)
      then have "kv = (name, OBJECT n) \<or> kv \<in> set (heap st ! a)" by (rule set_update_cases)
      then show ?thesis
      proof
        assume "kv = (name, OBJECT n)"
        with an 2 show ?thesis by (simp add: well_placed_def)
      next
        assume "kv \<in> set (heap st ! a)"
        with inv an 2 have "well_placed n b (snd kv)"
          by (auto simp: store_invariant_def n_def)
        then show ?thesis by (rule well_placed_mono) simp
      qed
    next
      case 3
      with kv have "kv \<in> set (heap st ! b)" by (simp add: hp nth_append n_def)
      with inv 3 have "well_placed n b (snd kv)"
        by (auto simp: store_invariant_def n_def)
      then show ?thesis by (rule well_placed_mono) simp
    qed
  qed
  with frames len show ?thesis
    by (simp add: store_invariant_def)
qed

lemma loopBody_store_invariant:
  assumes "store_invariant st" and "loopBody sd st ts = Continue st' ts'"
  shows "store_invariant st'"
  using assms
  by (auto simp: loopBody_def split: list.splits if_splits sum.splits
      dest: openSection_store_invariant assignKey_store_invariant)

lemma resolve_dangling_free:
  assumes "\<forall>a < length h. \<forall>kv \<in> set (h ! a). well_placed (length h) a (snd kv)"
    and "well_placed (length h) a v"
  shows "dangling_free (resolve h a v)"
  using assms
proof (induct h a v rule: resolve.induct)
  case (6 h a vs)
  from "6.prems"(2) have "object_free x" if "x \<in> set vs" for x
    using that by (simp add: well_placed_def)
  then have "well_placed (length h) a x" if "x \<in> set vs" for x
    using that by (simp add: object_free_well_placed)
  with "6.hyps"[OF _ "6.prems"(1)] show ?case by simp
next
  case (7 h a b)
  from "7.prems"(2) have ab: "a < b \<and> b < length h" by (simp add: well_placed_def)
  with "7.prems"(1) have "well_placed (length h) b (snd kv)" if "kv \<in> set (h ! b)" for kv
    using that by blast
  with "7.hyps"[OF ab _ "7.prems"(1)] ab show ?case by simp
qed simp_all

lemma resolve_keys:
  assumes "\<forall>m \<in> set h. key \<notin> fst ` set m"
  shows "key \<notin> doc_keys (resolve h a v)"
  using assms
proof (induct h a v rule: resolve.induct)
  case (7 h a b)
  show ?case
  proof (cases "a < b \<and> b < length h")
    case True
    then have "h ! b \<in> set h" by simp
    with "7.prems" have "key \<notin> fst ` set (h ! b)" by blast
    with "7.hyps"[OF True _ "7.prems"] True show ?thesis
      by (auto simp: image_iff)
  next
    case False
    then show ?thesis by auto
  qed
qed auto

lemma initial_invariants: "store_invariant initial_state" "keys_allowed initial_state"
  by (simp_all add: store_invariant_def keys_allowed_def initial_state_def)

lemma parse_invariants:
  assumes "parse sd content = Inr r"
  obtains st where "r = (heap st ! 0, heap st)" "store_invariant st" "keys_allowed st"
    "stack_invariant st"
proof -
  from assms obtain toks st where
    run: "parseLoop sd initial_state toks = Inr st" and r: "r = (heap st ! 0, heap st)"
    by (auto simp: parse_def split: sum.splits)
  have "store_invariant st"
    using run initial_invariants(1) loopBody_store_invariant
    by (rule parseLoop_invariant[where P = store_invariant])
  moreover have "keys_allowed st"
    using run initial_invariants(2) loopBody_keys_allowed
    by (rule parseLoop_invariant[where P = keys_allowed])
  moreover have "stack_invariant st"
    using run stack_invariant_initial loopBody_invariant
    by (rule parseLoop_invariant[where P = stack_invariant])
  ultimately show thesis using r by (rule that[rotated])
qed

lemma parse_no_dangling:
  assumes "parse sd content = Inr r"
  shows "dangling_free (document r)"
proof -
  from assms obtain st where r: "r = (heap st ! 0, heap st)" and si: "store_invariant st"
    and stk: "stack_invariant st"
    by (rule parse_invariants)
  from stk have "stack st \<noteq> []" by (auto simp: stack_invariant_def)
  then have "stack st ! 0 \<in> set (stack st)" by simp
  with stk si have root: "0 < length (heap st)"
    by (auto simp: stack_invariant_def store_invariant_def)
  have "dangling_free (resolve (heap st) 0 (snd kv))" if "kv \<in> set (heap st ! 0)" for kv
    using si root that by (intro resolve_dangling_free) (auto simp: store_invariant_def)
  then show ?thesis by (simp add: r document_def)
qed

section \<open>Scenario A: the reference document\<close>

text \<open>
  Claim C1.  The valid input of the test suite (header first, top-level string, numeric, boolean
  and null keys, the section chain \<open>database\<close>, \<open>pool\<close>, \<open>KERNEL_FLAGS\<close> of stages 1, 2, 3 ending
  in a boolean key, and a top-level array of two strings) is accepted.  The returned root map
  holds the scalar keys, the pointer to the \<open>database\<close> object and the array
  \<open>["Prof_Oak", "Mom"]\<close> under \<open>whitelist\<close>; the store holds the three section objects, each
  pointing to the next; read as a tree, the document is the nested chain of the three sections.
\<close>

theorem valid_input_parses:
  "parse stod valid_input =
     Inr ([(''app_name'', STRING ''Pokedex_API''),
           (''version'', FLOAT (Finite (3 / 2))),
           (''is_production'', BOOL False),
           (''missing_data'', NULL_TYPE),
           (''database'', OBJECT 1),
           (''whitelist'', ARRAY [STRING ''Prof_Oak'', STRING ''Mom''])],
          [[(''app_name'', STRING ''Pokedex_API''),
            (''version'', FLOAT (Finite (3 / 2))),
            (''is_production'', BOOL False),
            (''missing_data'', NULL_TYPE),
            (''database'', OBJECT 1),
            (''whitelist'', ARRAY [STRING ''Prof_Oak'', STRING ''Mom''])],
           [(''host'', STRING ''127.0.0.1''), (''pool'', OBJECT 2)],
           [(''max_connections'', INT_TYPE 100), (''KERNEL_FLAGS'', OBJECT 3)],
           [(''panic_on_fail'', BOOL True)]])
   \<and> map_sum id document (parse stod valid_input) =
     Inr (DObject
       [(''app_name'', DString ''Pokedex_API''),
        (''version'', DFloat (Finite (3 / 2))),
        (''is_production'', DBool False),
        (''missing_data'', DNull),
        (''database'',
         DObject
          [(''host'', DString ''127.0.0.1''),
           (''pool'',
            DObject
             [(''max_connections'', DInt 100),
              (''KERNEL_FLAGS'', DObject [(''panic_on_fail'', DBool True)])])]),
        (''whitelist'', DArray [DString ''Prof_Oak'', DString ''Mom''])])"
proof -
  have run: "parse stod valid_input =
     Inr ([(''app_name'', STRING ''Pokedex_API''),
           (''version'', FLOAT (Finite (3 / 2))),
           (''is_production'', BOOL False),
           (''missing_data'', NULL_TYPE),
           (''database'', OBJECT 1),
           (''whitelist'', ARRAY [STRING ''Prof_Oak'', STRING ''Mom''])],
          [[(''app_name'', STRING ''Pokedex_API''),
            (''version'', FLOAT (Finite (3 / 2))),
            (''is_production'', BOOL False),
            (''missing_data'', NULL_TYPE),
            (''database'', OBJECT 1),
            (''whitelist'', ARRAY [STRING ''Prof_Oak'', STRING ''Mom''])],
           [(''host'', STRING ''127.0.0.1''), (''pool'', OBJECT 2)],
           [(''max_connections'', INT_TYPE 100), (''KERNEL_FLAGS'', OBJECT 3)],
           [(''panic_on_fail'', BOOL True)]])"
    by code_simp
  show ?thesis
    unfolding run by code_simp
qed

section \<open>The nesting discipline\<close>

text \<open>
  Claim C2 (as amended).  When the loop is at a section header of stage \<open>S\<close> whose line is
  indented at level \<open>S - 1\<close> and the stack holds fewer than \<open>S\<close> frames, the parse fails with the
  badges error, in whatever state the parser is and whatever follows.  When the line is not
  indented at level \<open>S - 1\<close>, the indentation check, which comes first, fails with the
  indentation error, whatever the stack holds.  In particular the input of the
  "Deep Nesting Violation" test, a stage-3 header at level 2 directly under a stage-1 section,
  fails with the badges error.
\<close>

theorem badges_error_when_ancestor_missing:
  "(\<forall>st indentTok openTok rest.
       type indentTok = TOKEN_INDENT \<and> type openTok = TOKEN_SECTION_OPEN
       \<and> int (level indentTok) = int (level openTok) - 1
       \<and> length (stack st) < level openTok
       \<longrightarrow> parseLoop sd st (indentTok # openTok # rest) = Inl BadgesError)
   \<and> (\<forall>st indentTok openTok rest.
       type indentTok = TOKEN_INDENT \<and> type openTok = TOKEN_SECTION_OPEN
       \<and> int (level indentTok) \<noteq> int (level openTok) - 1
       \<longrightarrow> parseLoop sd st (indentTok # openTok # rest) = Inl IndentationError)
   \<and> parse stod deepNesting = Inl BadgesError"
proof -
  have "parse stod deepNesting = Inl BadgesError"
    by code_simp
  moreover have "parseLoop sd st (indentTok # openTok # rest) = Inl BadgesError"
    if "type indentTok = TOKEN_INDENT" "type openTok = TOKEN_SECTION_OPEN"
      "int (level indentTok) = int (level openTok) - 1"
      "length (stack st) < level openTok"
    for st indentTok openTok rest
    using that by (simp add: parseLoop_section openSection_def)
  moreover have "parseLoop sd st (indentTok # openTok # rest) = Inl IndentationError"
    if "type indentTok = TOKEN_INDENT" "type openTok = TOKEN_SECTION_OPEN"
      "int (level indentTok) \<noteq> int (level openTok) - 1"
    for st indentTok openTok rest
    using that by (simp add: parseLoop_section openSection_def)
  ultimately show ?thesis by blast
qed

text \<open>
  Witness for C2: the state after \<^verbatim>\<open>(o) level1 (o)\<close> (two frames) at a stage-3 header indented
  at level 2, and at one indented at level 1.
\<close>

theorem badges_error_when_ancestor_missing_witness:
  "parseLoop stod
     \<lparr>heap = [[(''level1'', OBJECT 1)], []],
      stack = [\<lparr>ctx_map = 0, ctx_level = 0\<rparr>, \<lparr>ctx_map = 1, ctx_level = 1\<rparr>],
      currentLevel = 1\<rparr>
     [mkToken TOKEN_INDENT [] 3 2, mkToken TOKEN_SECTION_OPEN [] 3 3,
      mkToken TOKEN_IDENTIFIER ''level3'' 3 0, mkToken TOKEN_SECTION_CLOSE [] 3 3,
      mkToken TOKEN_EOF [] 3 0] = Inl BadgesError
   \<and> parseLoop stod
     \<lparr>heap = [[(''level1'', OBJECT 1)], []],
      stack = [\<lparr>ctx_map = 0, ctx_level = 0\<rparr>, \<lparr>ctx_map = 1, ctx_level = 1\<rparr>],
      currentLevel = 1\<rparr>
     [mkToken TOKEN_INDENT [] 3 1, mkToken TOKEN_SECTION_OPEN [] 3 3,
      mkToken TOKEN_IDENTIFIER ''level3'' 3 0, mkToken TOKEN_SECTION_CLOSE [] 3 3,
      mkToken TOKEN_EOF [] 3 0] = Inl IndentationError"
  using badges_error_when_ancestor_missing [of stod]
  by (simp add: mkToken_def)

text \<open>
  Counterexample to C2 as stated: a stage-2 header at indentation level 0 directly in the root.
  The stack holds one frame, fewer than 2, but the indentation check comes first and the parse
  fails with the indentation error, not the badges error.
\<close>

theorem stage_two_at_root_is_indentation_error:
  "length (stack initial_state) < 2
   \<and> parse stod ''BULBA!\<newline>(O) pool (O)'' = Inl IndentationError"
  by code_simp

section \<open>The stack invariant\<close>

text \<open>
  Claim C3.  The initial state satisfies the stack invariant, every iteration of the loop that
  continues (a section header, a key/value line, the header token) preserves it, and so it holds
  at every point between statements of a parse: the length of the stack is the deepest open
  level plus 1, frame \<open>i\<close> has level \<open>i\<close>, and frame 0 is the root at level 0.
\<close>

theorem stack_length_invariant:
  "stack_invariant initial_state
   \<and> (\<forall>st ts st' ts'. stack_invariant st \<and> loopBody sd st ts = Continue st' ts'
         \<longrightarrow> stack_invariant st')
   \<and> (\<forall>n st ts. loopIter sd n initial_state tokens = Some (st, ts) \<longrightarrow> stack_invariant st)"
  using stack_invariant_initial loopBody_invariant loopIter_invariant by blast

text \<open>
  Witness for C3: on \<open>nested_tokens\<close> the initial state, the iteration that opens the section
  (two frames afterwards), and the state after four iterations (the dedented key has closed the
  section, one frame).
\<close>

theorem stack_length_invariant_witness:
  "stack_invariant initial_state
   \<and> loopBody stod initial_state (drop 1 nested_tokens) =
       Continue \<lparr>heap = [[(''level1'', OBJECT 1)], []],
            stack = [\<lparr>ctx_map = 0, ctx_level = 0\<rparr>, \<lparr>ctx_map = 1, ctx_level = 1\<rparr>],
            currentLevel = 1\<rparr> (drop 5 nested_tokens)
   \<and> stack_invariant \<lparr>heap = [[(''level1'', OBJECT 1)], []],
            stack = [\<lparr>ctx_map = 0, ctx_level = 0\<rparr>, \<lparr>ctx_map = 1, ctx_level = 1\<rparr>],
            currentLevel = 1\<rparr>
   \<and> loopIter stod 4 initial_state nested_tokens =
     Some (\<lparr>heap = [[(''level1'', OBJECT 1), (''top'', NULL_TYPE)], [(''key'', STRING ''val'')]],
            stack = [\<lparr>ctx_map = 0, ctx_level = 0\<rparr>],
            currentLevel = 0\<rparr>, drop 13 nested_tokens)
   \<and> stack_invariant \<lparr>heap = [[(''level1'', OBJECT 1), (''top'', NULL_TYPE)], [(''key'', STRING ''val'')]],
            stack = [\<lparr>ctx_map = 0, ctx_level = 0\<rparr>],
            currentLevel = 0\<rparr>"
proof -
  note inst = stack_length_invariant [where sd = stod and tokens = nested_tokens]
  have a: "loopBody stod initial_state (drop 1 nested_tokens) =
       Continue \<lparr>heap = [[(''level1'', OBJECT 1)], []],
            stack = [\<lparr>ctx_map = 0, ctx_level = 0\<rparr>, \<lparr>ctx_map = 1, ctx_level = 1\<rparr>],
            currentLevel = 1\<rparr> (drop 5 nested_tokens)"
    by code_simp
  have b: "loopIter stod 4 initial_state nested_tokens =
     Some (\<lparr>heap = [[(''level1'', OBJECT 1), (''top'', NULL_TYPE)], [(''key'', STRING ''val'')]],
            stack = [\<lparr>ctx_map = 0, ctx_level = 0\<rparr>],
            currentLevel = 0\<rparr>, drop 13 nested_tokens)"
    by code_simp
  from inst have i: "stack_invariant initial_state" by blast
  from inst i a have s2: "stack_invariant \<lparr>heap = [[(''level1'', OBJECT 1)], []],
            stack = [\<lparr>ctx_map = 0, ctx_level = 0\<rparr>, \<lparr>ctx_map = 1, ctx_level = 1\<rparr>],
            currentLevel = 1\<rparr>"
    by blast
  from inst b have s4: "stack_invariant \<lparr>heap = [[(''level1'', OBJECT 1), (''top'', NULL_TYPE)], [(''key'', STRING ''val'')]],
            stack = [\<lparr>ctx_map = 0, ctx_level = 0\<rparr>],
            currentLevel = 0\<rparr>"
    by blast
  from i a s2 b s4 show ?thesis by blast
qed

section \<open>The header line\<close>

text \<open>
  Claim C4 (as amended).  For a non-empty content: if the first physical line, after the removal
  of one trailing carriage return, is not exactly the sentinel, \<open>tokenize\<close> and \<open>parse\<close> fail with
  the header error; and whenever \<open>tokenize\<close> succeeds that line is the sentinel, the stream starts
  with the one header token (line 1, level 0), no later token is a header token, and every
  \<open>INDENT\<close> token belongs to line 2 or later.
\<close>

theorem header_line_check:
  assumes "content \<noteq> []"
  shows "(stripCR (first_physical_line content) \<noteq> ''BULBA!''
            \<longrightarrow> tokenize sd content = Inl HeaderError \<and> parse sd content = Inl HeaderError)
       \<and> (\<forall>toks. tokenize sd content = Inr toks \<longrightarrow>
            stripCR (first_physical_line content) = ''BULBA!''
            \<and> (\<exists>rest. toks = mkToken TOKEN_HEADER ''BULBA!'' 1 0 # rest
                  \<and> (\<forall>t \<in> set rest. type t \<noteq> TOKEN_HEADER
                        \<and> (type t = TOKEN_INDENT \<longrightarrow> 2 \<le> line t))))"
proof (intro conjI impI allI)
  assume bad: "stripCR (first_physical_line content) \<noteq> ''BULBA!''"
  with assms show "tokenize sd content = Inl HeaderError"
    unfolding tokenize_def
    by (subst tokenizeLoop_unfold) (simp add: getline_def first_physical_line_def)
  then show "parse sd content = Inl HeaderError"
    by (simp add: parse_def)
next
  fix toks
  assume ok: "tokenize sd content = Inr toks"
  from ok show "stripCR (first_physical_line content) = ''BULBA!''"
    using assms
    by (cases rule: tokenize_cases) (auto simp: getline_def first_physical_line_def)
  from ok show "\<exists>rest. toks = mkToken TOKEN_HEADER ''BULBA!'' 1 0 # rest
                  \<and> (\<forall>t \<in> set rest. type t \<noteq> TOKEN_HEADER
                        \<and> (type t = TOKEN_INDENT \<longrightarrow> 2 \<le> line t))"
  proof (cases rule: tokenize_cases)
    case empty
    with assms show ?thesis by simp
  next
    case (header lineStr ss' body)
    have "type t \<noteq> TOKEN_HEADER \<and> (type t = TOKEN_INDENT \<longrightarrow> 2 \<le> line t)"
      if "t \<in> set body" for t
      using tokenizeLoop_tokens[OF header(3) _ that] by (auto simp: lexed_token_def)
    with header(4) show ?thesis by blast
  qed
qed

text \<open>
  Witness for C4: a content whose first line is the sentinel, and the content of the
  "Invalid Header" test.
\<close>

theorem header_line_check_witness:
  "''BULBA!\<newline>key ~> 1'' \<noteq> []
   \<and> tokenize stod ''BULBA!\<newline>key ~> 1'' =
       Inr [mkToken TOKEN_HEADER ''BULBA!'' 1 0, mkToken TOKEN_INDENT [] 2 0,
            mkToken TOKEN_IDENTIFIER ''key'' 2 0, mkToken TOKEN_VINE_WHIP [] 2 0,
            mkToken TOKEN_NUMBER ''1'' 2 0, mkToken TOKEN_EOF [] 2 0]
   \<and> stripCR (first_physical_line ''BULBA!\<newline>key ~> 1'') = ''BULBA!''
   \<and> ''NOT_BULBA!\<newline>key ~> \"val\"'' \<noteq> []
   \<and> stripCR (first_physical_line ''NOT_BULBA!\<newline>key ~> \"val\"'') \<noteq> ''BULBA!''
   \<and> parse stod ''NOT_BULBA!\<newline>key ~> \"val\"'' = Inl HeaderError"
proof -
  have ne1: "''BULBA!\<newline>key ~> 1'' \<noteq> []" and ne2: "''NOT_BULBA!\<newline>key ~> \"val\"'' \<noteq> []"
    by simp_all
  have tk: "tokenize stod ''BULBA!\<newline>key ~> 1'' =
       Inr [mkToken TOKEN_HEADER ''BULBA!'' 1 0, mkToken TOKEN_INDENT [] 2 0,
            mkToken TOKEN_IDENTIFIER ''key'' 2 0, mkToken TOKEN_VINE_WHIP [] 2 0,
            mkToken TOKEN_NUMBER ''1'' 2 0, mkToken TOKEN_EOF [] 2 0]"
    by code_simp
  have bad: "stripCR (first_physical_line ''NOT_BULBA!\<newline>key ~> \"val\"'') \<noteq> ''BULBA!''"
    by code_simp
  from header_line_check [OF ne1, of stod] tk header_line_check [OF ne2, of stod] bad ne1 ne2
  show ?thesis by blast
qed

text \<open>
  Counterexample to C4 as stated: the first physical line is the sentinel followed by a carriage
  return, a trailing extra character, yet the content is accepted, because the carriage return
  is stripped before the comparison.
\<close>

theorem header_with_carriage_return_accepted:
  "first_physical_line (''BULBA!'' @ [CHR 0x0D]) \<noteq> ''BULBA!''
   \<and> tokenize stod (''BULBA!'' @ [CHR 0x0D]) =
       Inr [mkToken TOKEN_HEADER ''BULBA!'' 1 0, mkToken TOKEN_EOF [] 1 0]
   \<and> parse stod (''BULBA!'' @ [CHR 0x0D]) = Inr ([], [[]])"
  by code_simp

section \<open>Commas inside array elements\<close>

text \<open>
  Claim C5 (the code departs from it).  The lexer cuts the interior of an array at every comma,
  also at a comma inside an inner array or inside a quoted string.  The array
  \<^verbatim>\<open><| <| 1, 2 |> |>\<close> is cut into \<^verbatim>\<open> <| 1\<close> and \<^verbatim>\<open> 2 |> \<close>; the first piece is no value, and
  \<open>tokenize\<close> fails with the type error instead of giving a well-nested token sequence.  The same
  happens to \<^verbatim>\<open><| "a,b" |>\<close>.  A nested array without a comma, \<^verbatim>\<open><| <| 1 |> |>\<close>, is tokenized
  as the claim says.
\<close>

theorem nested_array_with_comma_rejected:
  "tokenize stod ''BULBA!\<newline>k ~> <| <| 1, 2 |> |>'' = Inl TypeError
   \<and> tokenizeValue stod '' <| 1'' 2 = Inl TypeError
   \<and> tokenize stod ''BULBA!\<newline>k ~> <| \"a,b\" |>'' = Inl TypeError
   \<and> tokenize stod ''BULBA!\<newline>k ~> <| <| 1 |> |>'' =
       Inr [mkToken TOKEN_HEADER ''BULBA!'' 1 0, mkToken TOKEN_INDENT [] 2 0,
            mkToken TOKEN_IDENTIFIER ''k'' 2 0, mkToken TOKEN_VINE_WHIP [] 2 0,
            mkToken TOKEN_ARRAY_START [] 2 0, mkToken TOKEN_ARRAY_START [] 2 0,
            mkToken TOKEN_NUMBER ''1'' 2 0, mkToken TOKEN_ARRAY_END [] 2 0,
            mkToken TOKEN_ARRAY_END [] 2 0, mkToken TOKEN_EOF [] 2 0]"
  by code_simp

section \<open>A key without a value\<close>

text \<open>
  Claim C6 (as amended).  A value text that is empty or blank yields no token, so a key/value
  line without a value leaves the assign token directly followed by the \<open>INDENT\<close> token of the
  next line or by the \<open>EOF\<close> token (\<open>missing_value\<close>).  Every content whose token stream has
  such a place is rejected.  The error is the type error, not the syntax error, whenever the
  loop reaches the statement and its indentation and reserved-key checks pass: the token found
  where the value should start is no value.
\<close>

theorem missing_value_rejected_with_type_error:
  "(\<forall>valStr n. trim valStr = [] \<longrightarrow> tokenizeValue sd valStr n = Inr [])
   \<and> (\<forall>toks. tokenize sd content = Inr toks \<and> missing_value toks
          \<longrightarrow> (\<exists>e. parse sd content = Inl e))
   \<and> (\<forall>st indentTok keyTok vineTok nextTok rest.
         type indentTok = TOKEN_INDENT \<and> type keyTok = TOKEN_IDENTIFIER
         \<and> type vineTok = TOKEN_VINE_WHIP
         \<and> (type nextTok = TOKEN_INDENT \<or> type nextTok = TOKEN_EOF)
         \<and> level indentTok \<le> currentLevel st \<and> literal keyTok \<noteq> ''Charizard''
         \<longrightarrow> parseLoop sd st (indentTok # keyTok # vineTok # nextTok # rest) = Inl TypeError)"
proof (intro conjI allI impI)
  fix valStr n
  assume "trim valStr = []"
  then show "tokenizeValue sd valStr n = Inr []" by (rule tokenizeValue_blank)
next
  fix toks
  assume "tokenize sd content = Inr toks \<and> missing_value toks"
  then show "\<exists>e. parse sd content = Inl e"
    by (auto intro: missing_value_rejected)
next
  fix st :: parser_state and indentTok keyTok vineTok nextTok :: Token and rest :: "Token list"
  assume "type indentTok = TOKEN_INDENT \<and> type keyTok = TOKEN_IDENTIFIER
         \<and> type vineTok = TOKEN_VINE_WHIP
         \<and> (type nextTok = TOKEN_INDENT \<or> type nextTok = TOKEN_EOF)
         \<and> level indentTok \<le> currentLevel st \<and> literal keyTok \<noteq> ''Charizard''"
  then show "parseLoop sd st (indentTok # keyTok # vineTok # nextTok # rest) = Inl TypeError"
    by (auto simp: parseLoop_keyValue assignKey_def validateKey_def Let_def)
qed

text \<open>
  Witness for C6: the line \<^verbatim>\<open>key ~>\<close> followed by another line, from the content to the
  type error of the statement in the initial state.
\<close>

theorem missing_value_rejected_with_type_error_witness:
  "trim ''  '' = []
   \<and> tokenizeValue stod ''  '' 2 = Inr []
   \<and> tokenize stod ''BULBA!\<newline>key ~>\<newline>other ~> 1'' =
       Inr [mkToken TOKEN_HEADER ''BULBA!'' 1 0, mkToken TOKEN_INDENT [] 2 0,
            mkToken TOKEN_IDENTIFIER ''key'' 2 0, mkToken TOKEN_VINE_WHIP [] 2 0,
            mkToken TOKEN_INDENT [] 3 0, mkToken TOKEN_IDENTIFIER ''other'' 3 0,
            mkToken TOKEN_VINE_WHIP [] 3 0, mkToken TOKEN_NUMBER ''1'' 3 0,
            mkToken TOKEN_EOF [] 3 0]
   \<and> missing_value
       [mkToken TOKEN_HEADER ''BULBA!'' 1 0, mkToken TOKEN_INDENT [] 2 0,
            mkToken TOKEN_IDENTIFIER ''key'' 2 0, mkToken TOKEN_VINE_WHIP [] 2 0,
            mkToken TOKEN_INDENT [] 3 0, mkToken TOKEN_IDENTIFIER ''other'' 3 0,
            mkToken TOKEN_VINE_WHIP [] 3 0, mkToken TOKEN_NUMBER ''1'' 3 0,
            mkToken TOKEN_EOF [] 3 0]
   \<and> (\<exists>e. parse stod ''BULBA!\<newline>key ~>\<newline>other ~> 1'' = Inl e)
   \<and> parseLoop stod initial_state
       [mkToken TOKEN_INDENT [] 2 0, mkToken TOKEN_IDENTIFIER ''key'' 2 0,
        mkToken TOKEN_VINE_WHIP [] 2 0,
        mkToken TOKEN_INDENT [] 3 0, mkToken TOKEN_IDENTIFIER ''other'' 3 0,
        mkToken TOKEN_VINE_WHIP [] 3 0, mkToken TOKEN_NUMBER ''1'' 3 0,
        mkToken TOKEN_EOF [] 3 0] = Inl TypeError"
proof -
  note inst = missing_value_rejected_with_type_error
    [where sd = stod and content = "''BULBA!\<newline>key ~>\<newline>other ~> 1''"]
  have blank: "trim ''  '' = []"
    by code_simp
  with inst have novalue: "tokenizeValue stod ''  '' 2 = Inr []"
    by blast
  have tk: "tokenize stod ''BULBA!\<newline>key ~>\<newline>other ~> 1'' =
       Inr [mkToken TOKEN_HEADER ''BULBA!'' 1 0, mkToken TOKEN_INDENT [] 2 0,
            mkToken TOKEN_IDENTIFIER ''key'' 2 0, mkToken TOKEN_VINE_WHIP [] 2 0,
            mkToken TOKEN_INDENT [] 3 0, mkToken TOKEN_IDENTIFIER ''other'' 3 0,
            mkToken TOKEN_VINE_WHIP [] 3 0, mkToken TOKEN_NUMBER ''1'' 3 0,
            mkToken TOKEN_EOF [] 3 0]"
    by code_simp
  have mv: "missing_value
       [mkToken TOKEN_HEADER ''BULBA!'' 1 0, mkToken TOKEN_INDENT [] 2 0,
            mkToken TOKEN_IDENTIFIER ''key'' 2 0, mkToken TOKEN_VINE_WHIP [] 2 0,
            mkToken TOKEN_INDENT [] 3 0, mkToken TOKEN_IDENTIFIER ''other'' 3 0,
            mkToken TOKEN_VINE_WHIP [] 3 0, mkToken TOKEN_NUMBER ''1'' 3 0,
            mkToken TOKEN_EOF [] 3 0]"
    unfolding missing_value_def
    by (intro exI[of _ "[mkToken TOKEN_HEADER ''BULBA!'' 1 0, mkToken TOKEN_INDENT [] 2 0,
            mkToken TOKEN_IDENTIFIER ''key'' 2 0]"]
          exI[of _ "mkToken TOKEN_VINE_WHIP [] 2 0"] exI[of _ "mkToken TOKEN_INDENT [] 3 0"]
          exI[of _ "[mkToken TOKEN_IDENTIFIER ''other'' 3 0,
            mkToken TOKEN_VINE_WHIP [] 3 0, mkToken TOKEN_NUMBER ''1'' 3 0,
            mkToken TOKEN_EOF [] 3 0]"])
       (simp add: mkToken_def)
  from inst tk mv have rej: "\<exists>e. parse stod ''BULBA!\<newline>key ~>\<newline>other ~> 1'' = Inl e"
    by blast
  have step: "parseLoop stod initial_state
       (mkToken TOKEN_INDENT [] 2 0 # mkToken TOKEN_IDENTIFIER ''key'' 2 0
        # mkToken TOKEN_VINE_WHIP [] 2 0
        # mkToken TOKEN_INDENT [] 3 0 # [mkToken TOKEN_IDENTIFIER ''other'' 3 0,
        mkToken TOKEN_VINE_WHIP [] 3 0, mkToken TOKEN_NUMBER ''1'' 3 0,
        mkToken TOKEN_EOF [] 3 0]) = Inl TypeError"
    by (rule inst [THEN conjunct2, THEN conjunct2, rule_format])
       (simp add: mkToken_def initial_state_def)
  from blank novalue tk mv rej step show ?thesis by simp
qed

text \<open>
  Counterexample to C6 as stated: for the inputs \<^verbatim>\<open>BULBA! / key ~>\<close> and
  \<^verbatim>\<open>BULBA! / key ~> / other ~> 1\<close> the lexer emits no value token after the assign operator
  of \<open>key\<close>, and the parse fails with the type error, not the syntax error.
\<close>

theorem missing_value_not_syntax_error:
  "tokenize stod ''BULBA!\<newline>key ~>'' =
     Inr [mkToken TOKEN_HEADER ''BULBA!'' 1 0, mkToken TOKEN_INDENT [] 2 0,
          mkToken TOKEN_IDENTIFIER ''key'' 2 0, mkToken TOKEN_VINE_WHIP [] 2 0,
          mkToken TOKEN_EOF [] 2 0]
   \<and> parse stod ''BULBA!\<newline>key ~>'' = Inl TypeError
   \<and> parse stod ''BULBA!\<newline>key ~>\<newline>other ~> 1'' = Inl TypeError"
  by code_simp

section \<open>The reserved key\<close>

text \<open>
  Claim C7 (as amended).  No accepted document has the reserved key, at any depth of the tree and
  in any object of the store.  Every content whose token stream has an identifier token (a key
  or a section name) equal to the reserved key is rejected, as is every content that the lexer
  rejects, with the error of the lexer.  The error is the reserved-key error whenever the loop
  reaches the statement and the checks that precede the key check pass: for a section header the
  indentation and badges checks, for a key/value line the indentation check.  Otherwise the
  statement fails with the error of the check that fails first: the indentation error for a
  key/value line indented deeper than the current level and for a section header of stage \<open>S\<close>
  not indented at level \<open>S - 1\<close>, the badges error for a section header indented at level
  \<open>S - 1\<close> with fewer than \<open>S\<close> frames on the stack.  The loop stops at the first failure: the
  parse returns what the loop returns from any point that it reaches, and when the statement at
  such a point throws, the parse fails with that error.
\<close>

theorem reserved_key_rejected:
  "(\<forall>r. parse sd content = Inr r
        \<longrightarrow> ''Charizard'' \<notin> doc_keys (document r)
            \<and> (\<forall>m \<in> set (snd r). ''Charizard'' \<notin> fst ` set m))
   \<and> (\<forall>toks. tokenize sd content = Inr toks \<and> (\<exists>t \<in> set toks. forbidden_key t)
        \<longrightarrow> (\<exists>e. parse sd content = Inl e))
   \<and> (\<forall>e. tokenize sd content = Inl e \<longrightarrow> parse sd content = Inl e)
   \<and> (\<forall>st indentTok openTok keyTok rest.
         type indentTok = TOKEN_INDENT \<and> type openTok = TOKEN_SECTION_OPEN
         \<and> int (level indentTok) = int (level openTok) - 1
         \<and> level openTok \<le> length (stack st) \<and> forbidden_key keyTok
         \<longrightarrow> parseLoop sd st (indentTok # openTok # keyTok # rest) = Inl ReservedKeyError)
   \<and> (\<forall>st indentTok keyTok rest.
         type indentTok = TOKEN_INDENT \<and> level indentTok \<le> currentLevel st
         \<and> forbidden_key keyTok
         \<longrightarrow> parseLoop sd st (indentTok # keyTok # rest) = Inl ReservedKeyError)
   \<and> (\<forall>st indentTok keyTok rest.
         type indentTok = TOKEN_INDENT \<and> currentLevel st < level indentTok
         \<and> forbidden_key keyTok
         \<longrightarrow> parseLoop sd st (indentTok # keyTok # rest) = Inl IndentationError)
   \<and> (\<forall>st indentTok openTok keyTok rest.
         type indentTok = TOKEN_INDENT \<and> type openTok = TOKEN_SECTION_OPEN
         \<and> int (level indentTok) \<noteq> int (level openTok) - 1 \<and> forbidden_key keyTok
         \<longrightarrow> parseLoop sd st (indentTok # openTok # keyTok # rest) = Inl IndentationError)
   \<and> (\<forall>st indentTok openTok keyTok rest.
         type indentTok = TOKEN_INDENT \<and> type openTok = TOKEN_SECTION_OPEN
         \<and> int (level indentTok) = int (level openTok) - 1
         \<and> length (stack st) < level openTok \<and> forbidden_key keyTok
         \<longrightarrow> parseLoop sd st (indentTok # openTok # keyTok # rest) = Inl BadgesError)
   \<and> (\<forall>toks n st ts.
         tokenize sd content = Inr toks \<and> loopIter sd n initial_state toks = Some (st, ts)
         \<longrightarrow> parse sd content
               = map_sum id (\<lambda>s. (heap s ! 0, heap s)) (parseLoop sd st ts))
   \<and> (\<forall>toks n st ts e.
         tokenize sd content = Inr toks \<and> loopIter sd n initial_state toks = Some (st, ts)
         \<and> loopBody sd st ts = Throw e
         \<longrightarrow> parse sd content = Inl e)"
proof (intro conjI allI impI)
  fix r
  assume ok: "parse sd content = Inr r"
  then obtain st where r: "r = (heap st ! 0, heap st)" and ka: "keys_allowed st"
    and si: "store_invariant st" and stk: "stack_invariant st"
    by (rule parse_invariants)
  from ka show cells: "\<forall>m \<in> set (snd r). ''Charizard'' \<notin> fst ` set m"
    by (simp add: r keys_allowed_def)
  from stk have "stack st \<noteq> []" by (auto simp: stack_invariant_def)
  then have "stack st ! 0 \<in> set (stack st)" by simp
  with stk si have "0 < length (heap st)"
    by (auto simp: stack_invariant_def store_invariant_def)
  then have "heap st ! 0 \<in> set (heap st)" by simp
  with ka have root: "''Charizard'' \<notin> fst ` set (heap st ! 0)"
    by (auto simp: keys_allowed_def)
  have "''Charizard'' \<notin> doc_keys (resolve (heap st) 0 v)" for v
    using ka by (intro resolve_keys) (simp add: keys_allowed_def)
  with root show "''Charizard'' \<notin> doc_keys (document r)"
    by (auto simp: r document_def image_iff)
next
  fix toks
  assume "tokenize sd content = Inr toks \<and> (\<exists>t \<in> set toks. forbidden_key t)"
  then show "\<exists>e. parse sd content = Inl e"
    by (auto intro: forbidden_key_rejected)
next
  fix e
  assume "tokenize sd content = Inl e"
  then show "parse sd content = Inl e" by (simp add: parse_def)
next
  fix st :: parser_state and indentTok openTok keyTok :: Token and rest :: "Token list"
  assume "type indentTok = TOKEN_INDENT \<and> type openTok = TOKEN_SECTION_OPEN
         \<and> int (level indentTok) = int (level openTok) - 1
         \<and> level openTok \<le> length (stack st) \<and> forbidden_key keyTok"
  then show "parseLoop sd st (indentTok # openTok # keyTok # rest) = Inl ReservedKeyError"
    by (simp add: parseLoop_section openSection_def validateKey_def forbidden_key_def)
next
  fix st :: parser_state and indentTok keyTok :: Token and rest :: "Token list"
  assume "type indentTok = TOKEN_INDENT \<and> level indentTok \<le> currentLevel st
         \<and> forbidden_key keyTok"
  then show "parseLoop sd st (indentTok # keyTok # rest) = Inl ReservedKeyError"
    by (auto simp: parseLoop_keyValue assignKey_def validateKey_def forbidden_key_def Let_def)
next
  fix st :: parser_state and indentTok keyTok :: Token and rest :: "Token list"
  assume "type indentTok = TOKEN_INDENT \<and> currentLevel st < level indentTok
         \<and> forbidden_key keyTok"
  then show "parseLoop sd st (indentTok # keyTok # rest) = Inl IndentationError"
    by (simp add: parseLoop_keyValue assignKey_def forbidden_key_def)
next
  fix st :: parser_state and indentTok openTok keyTok :: Token and rest :: "Token list"
  assume "type indentTok = TOKEN_INDENT \<and> type openTok = TOKEN_SECTION_OPEN
         \<and> int (level indentTok) \<noteq> int (level openTok) - 1 \<and> forbidden_key keyTok"
  then show "parseLoop sd st (indentTok # openTok # keyTok # rest) = Inl IndentationError"
    by (simp add: parseLoop_section openSection_def)
next
  fix st :: parser_state and indentTok openTok keyTok :: Token and rest :: "Token list"
  assume "type indentTok = TOKEN_INDENT \<and> type openTok = TOKEN_SECTION_OPEN
         \<and> int (level indentTok) = int (level openTok) - 1
         \<and> length (stack st) < level openTok \<and> forbidden_key keyTok"
  then show "parseLoop sd st (indentTok # openTok # keyTok # rest) = Inl BadgesError"
    by (simp add: parseLoop_section openSection_def)
next
  fix toks n and st :: parser_state and ts
  assume "tokenize sd content = Inr toks \<and> loopIter sd n initial_state toks = Some (st, ts)"
  then show "parse sd content = map_sum id (\<lambda>s. (heap s ! 0, heap s)) (parseLoop sd st ts)"
    by (auto intro: parse_loopIter)
next
  fix toks n and st :: parser_state and ts e
  assume "tokenize sd content = Inr toks \<and> loopIter sd n initial_state toks = Some (st, ts)
         \<and> loopBody sd st ts = Throw e"
  then show "parse sd content = Inl e"
    by (auto dest: parse_loopIter simp: parseLoop_Throw)
qed

text \<open>
  Witness for C7: the accepted \<open>nested_input\<close>; the content of the "Charizard Key" test; a
  content that the lexer rejects; the reserved key as a section name and as a key where the
  preceding checks pass and where they fail; the reserved key in a section, reached after two
  iterations of the loop; and the reserved key after a section header that fails.
\<close>

theorem reserved_key_rejected_witness:
  "parse stod nested_input =
     Inr ([(''level1'', OBJECT 1), (''top'', NULL_TYPE)],
          [[(''level1'', OBJECT 1), (''top'', NULL_TYPE)], [(''key'', STRING ''val'')]])
   \<and> ''Charizard'' \<notin> doc_keys (document
        ([(''level1'', OBJECT 1), (''top'', NULL_TYPE)],
         [[(''level1'', OBJECT 1), (''top'', NULL_TYPE)], [(''key'', STRING ''val'')]]))
   \<and> tokenize stod ''BULBA!\<newline>Charizard ~> \"Fire\"'' =
       Inr [mkToken TOKEN_HEADER ''BULBA!'' 1 0, mkToken TOKEN_INDENT [] 2 0,
            mkToken TOKEN_IDENTIFIER ''Charizard'' 2 0, mkToken TOKEN_VINE_WHIP [] 2 0,
            mkToken TOKEN_STRING ''Fire'' 2 0, mkToken TOKEN_EOF [] 2 0]
   \<and> forbidden_key (mkToken TOKEN_IDENTIFIER ''Charizard'' 2 0)
   \<and> (\<exists>e. parse stod ''BULBA!\<newline>Charizard ~> \"Fire\"'' = Inl e)
   \<and> tokenize stod ''BULBA!\<newline>key ~> UnknownType'' = Inl TypeError
   \<and> parse stod ''BULBA!\<newline>key ~> UnknownType'' = Inl TypeError
   \<and> parseLoop stod initial_state
        [mkToken TOKEN_INDENT [] 2 0, mkToken TOKEN_SECTION_OPEN [] 2 1,
         mkToken TOKEN_IDENTIFIER ''Charizard'' 2 0, mkToken TOKEN_SECTION_CLOSE [] 2 1,
         mkToken TOKEN_EOF [] 2 0] = Inl ReservedKeyError
   \<and> parseLoop stod initial_state
        [mkToken TOKEN_INDENT [] 2 0, mkToken TOKEN_IDENTIFIER ''Charizard'' 2 0,
         mkToken TOKEN_VINE_WHIP [] 2 0, mkToken TOKEN_STRING ''Fire'' 2 0,
         mkToken TOKEN_EOF [] 2 0] = Inl ReservedKeyError
   \<and> parseLoop stod initial_state
        [mkToken TOKEN_INDENT [] 2 1, mkToken TOKEN_IDENTIFIER ''Charizard'' 2 0,
         mkToken TOKEN_VINE_WHIP [] 2 0, mkToken TOKEN_STRING ''Fire'' 2 0,
         mkToken TOKEN_EOF [] 2 0] = Inl IndentationError
   \<and> parseLoop stod initial_state
        [mkToken TOKEN_INDENT [] 2 0, mkToken TOKEN_SECTION_OPEN [] 2 2,
         mkToken TOKEN_IDENTIFIER ''Charizard'' 2 0, mkToken TOKEN_SECTION_CLOSE [] 2 2,
         mkToken TOKEN_EOF [] 2 0] = Inl IndentationError
   \<and> parseLoop stod initial_state
        [mkToken TOKEN_INDENT [] 2 1, mkToken TOKEN_SECTION_OPEN [] 2 2,
         mkToken TOKEN_IDENTIFIER ''Charizard'' 2 0, mkToken TOKEN_SECTION_CLOSE [] 2 2,
         mkToken TOKEN_EOF [] 2 0] = Inl BadgesError
   \<and> tokenize stod ''BULBA!\<newline>(o) a (o)\<newline>    Charizard ~> 1'' =
       Inr [mkToken TOKEN_HEADER ''BULBA!'' 1 0,
            mkToken TOKEN_INDENT [] 2 0, mkToken TOKEN_SECTION_OPEN [] 2 1,
            mkToken TOKEN_IDENTIFIER ''a'' 2 0, mkToken TOKEN_SECTION_CLOSE [] 2 1,
            mkToken TOKEN_INDENT [] 3 1, mkToken TOKEN_IDENTIFIER ''Charizard'' 3 0,
            mkToken TOKEN_VINE_WHIP [] 3 0, mkToken TOKEN_NUMBER ''1'' 3 0,
            mkToken TOKEN_EOF [] 3 0]
   \<and> loopIter stod 2 initial_state
        [mkToken TOKEN_HEADER ''BULBA!'' 1 0,
         mkToken TOKEN_INDENT [] 2 0, mkToken TOKEN_SECTION_OPEN [] 2 1,
         mkToken TOKEN_IDENTIFIER ''a'' 2 0, mkToken TOKEN_SECTION_CLOSE [] 2 1,
         mkToken TOKEN_INDENT [] 3 1, mkToken TOKEN_IDENTIFIER ''Charizard'' 3 0,
         mkToken TOKEN_VINE_WHIP [] 3 0, mkToken TOKEN_NUMBER ''1'' 3 0,
         mkToken TOKEN_EOF [] 3 0]
       = Some (\<lparr>heap = [[(''a'', OBJECT 1)], []],
                stack = [\<lparr>ctx_map = 0, ctx_level = 0\<rparr>, \<lparr>ctx_map = 1, ctx_level = 1\<rparr>],
                currentLevel = 1\<rparr>,
               [mkToken TOKEN_INDENT [] 3 1, mkToken TOKEN_IDENTIFIER ''Charizard'' 3 0,
                mkToken TOKEN_VINE_WHIP [] 3 0, mkToken TOKEN_NUMBER ''1'' 3 0,
                mkToken TOKEN_EOF [] 3 0])
   \<and> parse stod ''BULBA!\<newline>(o) a (o)\<newline>    Charizard ~> 1'' = Inl ReservedKeyError
   \<and> tokenize stod ''BULBA!\<newline>(O) b (O)\<newline>Charizard ~> 1'' =
       Inr [mkToken TOKEN_HEADER ''BULBA!'' 1 0,
            mkToken TOKEN_INDENT [] 2 0, mkToken TOKEN_SECTION_OPEN [] 2 2,
            mkToken TOKEN_IDENTIFIER ''b'' 2 0, mkToken TOKEN_SECTION_CLOSE [] 2 2,
            mkToken TOKEN_INDENT [] 3 0, mkToken TOKEN_IDENTIFIER ''Charizard'' 3 0,
            mkToken TOKEN_VINE_WHIP [] 3 0, mkToken TOKEN_NUMBER ''1'' 3 0,
            mkToken TOKEN_EOF [] 3 0]
   \<and> loopBody stod initial_state
        [mkToken TOKEN_INDENT [] 2 0, mkToken TOKEN_SECTION_OPEN [] 2 2,
         mkToken TOKEN_IDENTIFIER ''b'' 2 0, mkToken TOKEN_SECTION_CLOSE [] 2 2,
         mkToken TOKEN_INDENT [] 3 0, mkToken TOKEN_IDENTIFIER ''Charizard'' 3 0,
         mkToken TOKEN_VINE_WHIP [] 3 0, mkToken TOKEN_NUMBER ''1'' 3 0,
         mkToken TOKEN_EOF [] 3 0] = Throw IndentationError
   \<and> parse stod ''BULBA!\<newline>(O) b (O)\<newline>Charizard ~> 1'' = Inl IndentationError"
proof -
  have ok: "parse stod nested_input =
     Inr ([(''level1'', OBJECT 1), (''top'', NULL_TYPE)],
          [[(''level1'', OBJECT 1), (''top'', NULL_TYPE)], [(''key'', STRING ''val'')]])"
    by code_simp
  have tk: "tokenize stod ''BULBA!\<newline>Charizard ~> \"Fire\"'' =
       Inr [mkToken TOKEN_HEADER ''BULBA!'' 1 0, mkToken TOKEN_INDENT [] 2 0,
            mkToken TOKEN_IDENTIFIER ''Charizard'' 2 0, mkToken TOKEN_VINE_WHIP [] 2 0,
            mkToken TOKEN_STRING ''Fire'' 2 0, mkToken TOKEN_EOF [] 2 0]"
    by code_simp
  have fk: "forbidden_key (mkToken TOKEN_IDENTIFIER ''Charizard'' 2 0)"
    by (simp add: forbidden_key_def mkToken_def)
  have lexfail: "tokenize stod ''BULBA!\<newline>key ~> UnknownType'' = Inl TypeError"
    by code_simp
  note inst = reserved_key_rejected [where sd = stod]
  from inst [where content = nested_input, THEN conjunct1, rule_format, OF ok]
  have a: "''Charizard'' \<notin> doc_keys (document
        ([(''level1'', OBJECT 1), (''top'', NULL_TYPE)],
         [[(''level1'', OBJECT 1), (''top'', NULL_TYPE)], [(''key'', STRING ''val'')]]))"
    by simp
  from fk have mem: "\<exists>t \<in> set [mkToken TOKEN_HEADER ''BULBA!'' 1 0, mkToken TOKEN_INDENT [] 2 0,
            mkToken TOKEN_IDENTIFIER ''Charizard'' 2 0, mkToken TOKEN_VINE_WHIP [] 2 0,
            mkToken TOKEN_STRING ''Fire'' 2 0, mkToken TOKEN_EOF [] 2 0]. forbidden_key t"
    by simp
  have b: "\<exists>e. parse stod ''BULBA!\<newline>Charizard ~> \"Fire\"'' = Inl e"
    by (rule inst [where content = "''BULBA!\<newline>Charizard ~> \"Fire\"''",
          THEN conjunct2, THEN conjunct1, rule_format, OF conjI, OF tk mem])
  have c: "parse stod ''BULBA!\<newline>key ~> UnknownType'' = Inl TypeError"
    by (rule inst [where content = "''BULBA!\<newline>key ~> UnknownType''",
          THEN conjunct2, THEN conjunct2, THEN conjunct1, rule_format])
       (rule lexfail)
  note tail3 = inst [where content = "[]", THEN conjunct2, THEN conjunct2, THEN conjunct2]
  note tail5 = tail3 [THEN conjunct2, THEN conjunct2]
  have d: "parseLoop stod initial_state
        (mkToken TOKEN_INDENT [] 2 0 # mkToken TOKEN_SECTION_OPEN [] 2 1
         # mkToken TOKEN_IDENTIFIER ''Charizard'' 2 0 # [mkToken TOKEN_SECTION_CLOSE [] 2 1,
         mkToken TOKEN_EOF [] 2 0]) = Inl ReservedKeyError"
    by (rule tail3 [THEN conjunct1, rule_format])
       (simp add: mkToken_def initial_state_def forbidden_key_def)
  have e: "parseLoop stod initial_state
        (mkToken TOKEN_INDENT [] 2 0 # mkToken TOKEN_IDENTIFIER ''Charizard'' 2 0
         # [mkToken TOKEN_VINE_WHIP [] 2 0, mkToken TOKEN_STRING ''Fire'' 2 0,
         mkToken TOKEN_EOF [] 2 0]) = Inl ReservedKeyError"
    by (rule tail3 [THEN conjunct2, THEN conjunct1, rule_format])
       (simp add: mkToken_def initial_state_def forbidden_key_def)
  have f: "parseLoop stod initial_state
        (mkToken TOKEN_INDENT [] 2 1 # mkToken TOKEN_IDENTIFIER ''Charizard'' 2 0
         # [mkToken TOKEN_VINE_WHIP [] 2 0, mkToken TOKEN_STRING ''Fire'' 2 0,
         mkToken TOKEN_EOF [] 2 0]) = Inl IndentationError"
    by (rule tail5 [THEN conjunct1, rule_format])
       (simp add: mkToken_def initial_state_def forbidden_key_def)
  have g: "parseLoop stod initial_state
        (mkToken TOKEN_INDENT [] 2 0 # mkToken TOKEN_SECTION_OPEN [] 2 2
         # mkToken TOKEN_IDENTIFIER ''Charizard'' 2 0 # [mkToken TOKEN_SECTION_CLOSE [] 2 2,
         mkToken TOKEN_EOF [] 2 0]) = Inl IndentationError"
    by (rule tail5 [THEN conjunct2, THEN conjunct1, rule_format])
       (simp add: mkToken_def initial_state_def forbidden_key_def)
  have h: "parseLoop stod initial_state
        (mkToken TOKEN_INDENT [] 2 1 # mkToken TOKEN_SECTION_OPEN [] 2 2
         # mkToken TOKEN_IDENTIFIER ''Charizard'' 2 0 # [mkToken TOKEN_SECTION_CLOSE [] 2 2,
         mkToken TOKEN_EOF [] 2 0]) = Inl BadgesError"
    by (rule tail5 [THEN conjunct2, THEN conjunct2, THEN conjunct1, rule_format])
       (simp add: mkToken_def initial_state_def forbidden_key_def)
  have tk1: "tokenize stod ''BULBA!\<newline>(o) a (o)\<newline>    Charizard ~> 1'' =
       Inr [mkToken TOKEN_HEADER ''BULBA!'' 1 0,
            mkToken TOKEN_INDENT [] 2 0, mkToken TOKEN_SECTION_OPEN [] 2 1,
            mkToken TOKEN_IDENTIFIER ''a'' 2 0, mkToken TOKEN_SECTION_CLOSE [] 2 1,
            mkToken TOKEN_INDENT [] 3 1, mkToken TOKEN_IDENTIFIER ''Charizard'' 3 0,
            mkToken TOKEN_VINE_WHIP [] 3 0, mkToken TOKEN_NUMBER ''1'' 3 0,
            mkToken TOKEN_EOF [] 3 0]"
    by code_simp
  have it1: "loopIter stod 2 initial_state
        [mkToken TOKEN_HEADER ''BULBA!'' 1 0,
         mkToken TOKEN_INDENT [] 2 0, mkToken TOKEN_SECTION_OPEN [] 2 1,
         mkToken TOKEN_IDENTIFIER ''a'' 2 0, mkToken TOKEN_SECTION_CLOSE [] 2 1,
         mkToken TOKEN_INDENT [] 3 1, mkToken TOKEN_IDENTIFIER ''Charizard'' 3 0,
         mkToken TOKEN_VINE_WHIP [] 3 0, mkToken TOKEN_NUMBER ''1'' 3 0,
         mkToken TOKEN_EOF [] 3 0]
       = Some (\<lparr>heap = [[(''a'', OBJECT 1)], []],
                stack = [\<lparr>ctx_map = 0, ctx_level = 0\<rparr>, \<lparr>ctx_map = 1, ctx_level = 1\<rparr>],
                currentLevel = 1\<rparr>,
               [mkToken TOKEN_INDENT [] 3 1, mkToken TOKEN_IDENTIFIER ''Charizard'' 3 0,
                mkToken TOKEN_VINE_WHIP [] 3 0, mkToken TOKEN_NUMBER ''1'' 3 0,
                mkToken TOKEN_EOF [] 3 0])"
    by code_simp
  note inst1 = inst [where content = "''BULBA!\<newline>(o) a (o)\<newline>    Charizard ~> 1''"]
  have at1: "parseLoop stod
        \<lparr>heap = [[(''a'', OBJECT 1)], []],
         stack = [\<lparr>ctx_map = 0, ctx_level = 0\<rparr>, \<lparr>ctx_map = 1, ctx_level = 1\<rparr>],
         currentLevel = 1\<rparr>
        (mkToken TOKEN_INDENT [] 3 1 # mkToken TOKEN_IDENTIFIER ''Charizard'' 3 0
         # [mkToken TOKEN_VINE_WHIP [] 3 0, mkToken TOKEN_NUMBER ''1'' 3 0,
            mkToken TOKEN_EOF [] 3 0]) = Inl ReservedKeyError"
    by (rule inst1 [THEN conjunct2, THEN conjunct2, THEN conjunct2, THEN conjunct2,
          THEN conjunct1, rule_format])
       (simp add: mkToken_def forbidden_key_def)
  from inst1 [THEN conjunct2, THEN conjunct2, THEN conjunct2, THEN conjunct2, THEN conjunct2,
      THEN conjunct2, THEN conjunct2, THEN conjunct2, THEN conjunct1, rule_format,
      OF conjI, OF tk1 it1] at1
  have i: "parse stod ''BULBA!\<newline>(o) a (o)\<newline>    Charizard ~> 1'' = Inl ReservedKeyError"
    by simp
  have tk2: "tokenize stod ''BULBA!\<newline>(O) b (O)\<newline>Charizard ~> 1'' =
       Inr [mkToken TOKEN_HEADER ''BULBA!'' 1 0,
            mkToken TOKEN_INDENT [] 2 0, mkToken TOKEN_SECTION_OPEN [] 2 2,
            mkToken TOKEN_IDENTIFIER ''b'' 2 0, mkToken TOKEN_SECTION_CLOSE [] 2 2,
            mkToken TOKEN_INDENT [] 3 0, mkToken TOKEN_IDENTIFIER ''Charizard'' 3 0,
            mkToken TOKEN_VINE_WHIP [] 3 0, mkToken TOKEN_NUMBER ''1'' 3 0,
            mkToken TOKEN_EOF [] 3 0]"
    by code_simp
  have it2: "loopIter stod 1 initial_state
        [mkToken TOKEN_HEADER ''BULBA!'' 1 0,
         mkToken TOKEN_INDENT [] 2 0, mkToken TOKEN_SECTION_OPEN [] 2 2,
         mkToken TOKEN_IDENTIFIER ''b'' 2 0, mkToken TOKEN_SECTION_CLOSE [] 2 2,
         mkToken TOKEN_INDENT [] 3 0, mkToken TOKEN_IDENTIFIER ''Charizard'' 3 0,
         mkToken TOKEN_VINE_WHIP [] 3 0, mkToken TOKEN_NUMBER ''1'' 3 0,
         mkToken TOKEN_EOF [] 3 0]
       = Some (initial_state,
               [mkToken TOKEN_INDENT [] 2 0, mkToken TOKEN_SECTION_OPEN [] 2 2,
                mkToken TOKEN_IDENTIFIER ''b'' 2 0, mkToken TOKEN_SECTION_CLOSE [] 2 2,
                mkToken TOKEN_INDENT [] 3 0, mkToken TOKEN_IDENTIFIER ''Charizard'' 3 0,
                mkToken TOKEN_VINE_WHIP [] 3 0, mkToken TOKEN_NUMBER ''1'' 3 0,
                mkToken TOKEN_EOF [] 3 0])"
    by code_simp
  have lb2: "loopBody stod initial_state
        [mkToken TOKEN_INDENT [] 2 0, mkToken TOKEN_SECTION_OPEN [] 2 2,
         mkToken TOKEN_IDENTIFIER ''b'' 2 0, mkToken TOKEN_SECTION_CLOSE [] 2 2,
         mkToken TOKEN_INDENT [] 3 0, mkToken TOKEN_IDENTIFIER ''Charizard'' 3 0,
         mkToken TOKEN_VINE_WHIP [] 3 0, mkToken TOKEN_NUMBER ''1'' 3 0,
         mkToken TOKEN_EOF [] 3 0] = Throw IndentationError"
    by code_simp
  from inst [where content = "''BULBA!\<newline>(O) b (O)\<newline>Charizard ~> 1''",
      THEN conjunct2, THEN conjunct2, THEN conjunct2, THEN conjunct2, THEN conjunct2,
      THEN conjunct2, THEN conjunct2, THEN conjunct2, THEN conjunct2, rule_format,
      OF conjI, OF tk2 conjI, OF it2 lb2]
  have j: "parse stod ''BULBA!\<newline>(O) b (O)\<newline>Charizard ~> 1'' = Inl IndentationError" .
  from ok a tk fk b lexfail c d e f g h tk1 it1 i tk2 lb2 j show ?thesis by simp
qed

text \<open>
  Counterexample to C7 as stated: a reserved key on a line indented deeper than the current
  level fails with the indentation error, a stage-3 section of that name directly under a
  stage-1 section fails with the badges error, and a reserved key with an unrecognized value
  fails in the lexer with the type error; none fails with the reserved-key error.
\<close>

theorem reserved_key_other_error_first:
  "parse stod ''BULBA!\<newline>    Charizard ~> \"Fire\"'' = Inl IndentationError
   \<and> parse stod ''BULBA!\<newline>(o) a (o)\<newline>        (@) Charizard (@)'' = Inl BadgesError
   \<and> parse stod ''BULBA!\<newline>Charizard ~> Fire'' = Inl TypeError"
  by code_simp

section \<open>The empty input\<close>

text \<open>
  Claim C8.  On the empty content the first \<^verbatim>\<open>getline\<close> already fails, so the header check never
  runs: \<open>tokenize\<close> returns the \<open>EOF\<close> token alone (at line 0) and \<open>parse\<close> returns the empty
  root map, whatever the floating-point conversion is.
\<close>

theorem empty_input_parses:
  "tokenize sd [] = Inr [mkToken TOKEN_EOF [] 0 0]
   \<and> parse sd [] = Inr ([], [[]])
   \<and> document ([], [[]]) = DObject []"
  by (simp add: tokenize_def parse_def tokenizeLoop.simps parseLoop.simps getline_def
        loopBody_def initial_state_def mkToken_def document_def)

section \<open>Binding a name twice\<close>

text \<open>
  Claim C9.  A second binding of a name in the same object raises no error and replaces the
  first.  For two consecutive key/value statements with the same key at the same indentation,
  the first of which has a well-formed value, the parse gives what it gives without the first
  statement.  A key/value statement that succeeds leaves the object on top of the stack with the
  key bound to the parsed value, by \<open>AList.update\<close>, whether or not the key was bound before.
  A section header that succeeds binds the name, in the parent object, to a newly allocated
  object that is empty, whether or not the name was bound before (so the earlier contents are
  no longer reachable through the name), and whether the header succeeds does not depend on the
  store.

  Nor does the outcome of a key/value statement depend on the store, and whether the loop
  fails, and with which error, depends only on the tokens, the depth of the stack and the
  current level, never on the names that are bound.  So a key/value statement at the current
  level with a well-formed value and a key that is not reserved, whatever statements follow it,
  a second binding of its key among them, changes neither whether the rest of the parse fails
  nor its error.  A key/value statement succeeds whenever it is not indented deeper than the
  current level, its key is not reserved and its value is well formed; a section header
  succeeds whenever it is indented one level below its stage, the stack holds at least as many
  frames as its stage and its name is not reserved: in both cases whether or not the name is
  bound already.
\<close>

theorem later_binding_replaces_earlier:
  "(\<forall>st iA kA wA vtsA vA iB kB rest.
       type iA = TOKEN_INDENT \<and> type kA = TOKEN_IDENTIFIER \<and> type wA = TOKEN_VINE_WHIP
       \<and> type iB = TOKEN_INDENT \<and> type kB = TOKEN_IDENTIFIER
       \<and> level iA = level iB \<and> literal kA = literal kB
       \<and> (\<forall>r. parseValueFromTokens sd (vtsA @ r) = Inr (vA, r))
       \<longrightarrow> parseLoop sd st (iA # kA # wA # vtsA @ iB # kB # rest)
             = parseLoop sd st (iB # kB # rest))
   \<and> (\<forall>st L k ts st' ts'.
         assignKey sd st L k ts = Inr (st', ts')
         \<and> ctx_map (last (stack st')) < length (heap st)
         \<longrightarrow> (\<exists>v. parseValueFromTokens sd (tl ts) = Inr (v, ts')
                \<and> heap st' ! ctx_map (last (stack st'))
                    = AList.update (literal k) v (heap st ! ctx_map (last (stack st')))
                \<and> map_of (heap st' ! ctx_map (last (stack st'))) (literal k) = Some v))
   \<and> (\<forall>st L S ts st' ts'.
         openSection st L S ts = Inr (st', ts')
         \<and> ctx_map (last (take S (stack st))) < length (heap st)
         \<longrightarrow> length (heap st') = length (heap st) + 1
             \<and> heap st' ! ctx_map (last (take S (stack st)))
                  = AList.update (literal (hd ts)) (OBJECT (length (heap st)))
                      (heap st ! ctx_map (last (take S (stack st))))
             \<and> map_of (heap st' ! ctx_map (last (take S (stack st)))) (literal (hd ts))
                  = Some (OBJECT (length (heap st)))
             \<and> heap st' ! length (heap st) = []
             \<and> last (stack st') = \<lparr>ctx_map = length (heap st), ctx_level = S\<rparr>
             \<and> resolve (heap st') (ctx_map (last (take S (stack st))))
                  (OBJECT (length (heap st))) = DObject [])
   \<and> (\<forall>st h L S ts.
         map_sum id snd (openSection (st\<lparr>heap := h\<rparr>) L S ts)
           = map_sum id snd (openSection st L S ts))
   \<and> (\<forall>st h L k ts.
         map_sum id snd (assignKey sd (st\<lparr>heap := h\<rparr>) L k ts)
           = map_sum id snd (assignKey sd st L k ts))
   \<and> (\<forall>st st2 ts.
         length (stack st) = length (stack st2) \<and> currentLevel st = currentLevel st2
         \<longrightarrow> map_sum id (\<lambda>s. (length (stack s), currentLevel s)) (parseLoop sd st ts)
             = map_sum id (\<lambda>s. (length (stack s), currentLevel s)) (parseLoop sd st2 ts))
   \<and> (\<forall>st iA kA wA vtsA vA rest.
         type iA = TOKEN_INDENT \<and> type kA = TOKEN_IDENTIFIER \<and> type wA = TOKEN_VINE_WHIP
         \<and> level iA = currentLevel st \<and> literal kA \<noteq> ''Charizard''
         \<and> parseValueFromTokens sd (vtsA @ rest) = Inr (vA, rest)
         \<longrightarrow> map_sum id (\<lambda>s. (length (stack s), currentLevel s))
               (parseLoop sd st (iA # kA # wA # vtsA @ rest))
             = map_sum id (\<lambda>s. (length (stack s), currentLevel s)) (parseLoop sd st rest))
   \<and> (\<forall>st L k w ts v rest.
         L \<le> currentLevel st \<and> literal k \<noteq> ''Charizard'' \<and> type w = TOKEN_VINE_WHIP
         \<and> parseValueFromTokens sd ts = Inr (v, rest)
         \<longrightarrow> (\<exists>st'. assignKey sd st L k (w # ts) = Inr (st', rest)))
   \<and> (\<forall>st L S k c rest.
         int L = int S - 1 \<and> S \<le> length (stack st) \<and> type k = TOKEN_IDENTIFIER
         \<and> literal k \<noteq> ''Charizard'' \<and> type c = TOKEN_SECTION_CLOSE
         \<longrightarrow> (\<exists>st'. openSection st L S (k # c # rest) = Inr (st', rest)))"
proof (intro conjI allI impI)
  fix st :: parser_state and iA kA wA iB kB :: Token and vtsA rest :: "Token list" and vA
  assume "type iA = TOKEN_INDENT \<and> type kA = TOKEN_IDENTIFIER \<and> type wA = TOKEN_VINE_WHIP
       \<and> type iB = TOKEN_INDENT \<and> type kB = TOKEN_IDENTIFIER
       \<and> level iA = level iB \<and> literal kA = literal kB
       \<and> (\<forall>r. parseValueFromTokens sd (vtsA @ r) = Inr (vA, r))"
  then show "parseLoop sd st (iA # kA # wA # vtsA @ iB # kB # rest)
             = parseLoop sd st (iB # kB # rest)"
    by (intro parseLoop_rebinding) simp_all
next
  fix st st' :: parser_state and L and k :: Token and ts ts' :: "Token list"
  assume "assignKey sd st L k ts = Inr (st', ts')
         \<and> ctx_map (last (stack st')) < length (heap st)"
  then show "\<exists>v. parseValueFromTokens sd (tl ts) = Inr (v, ts')
                \<and> heap st' ! ctx_map (last (stack st'))
                    = AList.update (literal k) v (heap st ! ctx_map (last (stack st')))
                \<and> map_of (heap st' ! ctx_map (last (stack st'))) (literal k) = Some v"
    using assignKey_binds [of sd st L k ts st' ts'] by simp
next
  fix st :: parser_state and h L S ts
  show "map_sum id snd (openSection (st\<lparr>heap := h\<rparr>) L S ts)
           = map_sum id snd (openSection st L S ts)"
    by (rule openSection_ignores_heap)
next
  fix st :: parser_state and h L k ts
  show "map_sum id snd (assignKey sd (st\<lparr>heap := h\<rparr>) L k ts)
           = map_sum id snd (assignKey sd st L k ts)"
    by (rule assignKey_ignores_heap)
next
  fix st st2 :: parser_state and ts
  assume "length (stack st) = length (stack st2) \<and> currentLevel st = currentLevel st2"
  then show "map_sum id (\<lambda>s. (length (stack s), currentLevel s)) (parseLoop sd st ts)
             = map_sum id (\<lambda>s. (length (stack s), currentLevel s)) (parseLoop sd st2 ts)"
    by (intro parseLoop_depth) simp_all
next
  fix st :: parser_state and iA kA wA :: Token and vtsA rest :: "Token list" and vA
  assume "type iA = TOKEN_INDENT \<and> type kA = TOKEN_IDENTIFIER \<and> type wA = TOKEN_VINE_WHIP
         \<and> level iA = currentLevel st \<and> literal kA \<noteq> ''Charizard''
         \<and> parseValueFromTokens sd (vtsA @ rest) = Inr (vA, rest)"
  then show "map_sum id (\<lambda>s. (length (stack s), currentLevel s))
               (parseLoop sd st (iA # kA # wA # vtsA @ rest))
             = map_sum id (\<lambda>s. (length (stack s), currentLevel s)) (parseLoop sd st rest)"
    by (intro parseLoop_skip_binding [where vA = vA]) simp_all
next
  fix st :: parser_state and L and k w :: Token and ts rest :: "Token list" and v
  assume "L \<le> currentLevel st \<and> literal k \<noteq> ''Charizard'' \<and> type w = TOKEN_VINE_WHIP
         \<and> parseValueFromTokens sd ts = Inr (v, rest)"
  then show "\<exists>st'. assignKey sd st L k (w # ts) = Inr (st', rest)"
    by (intro assignKey_succeeds [where v = v]) simp_all
next
  fix st :: parser_state and L S and k c :: Token and rest :: "Token list"
  assume "int L = int S - 1 \<and> S \<le> length (stack st) \<and> type k = TOKEN_IDENTIFIER
         \<and> literal k \<noteq> ''Charizard'' \<and> type c = TOKEN_SECTION_CLOSE"
  then show "\<exists>st'. openSection st L S (k # c # rest) = Inr (st', rest)"
    by (intro openSection_succeeds) simp_all
qed (use openSection_fresh in blast)+

text \<open>
  Witness for C9: \<^verbatim>\<open>x ~> 1\<close> followed by \<^verbatim>\<open>x ~> 2\<close> in the initial state; the document of
  \<open>rebinding_input\<close>, where the key \<open>x\<close> is bound twice and the section \<open>a\<close> is opened twice;
  and \<^verbatim>\<open>x ~> 1\<close>, \<^verbatim>\<open>y ~> 2\<close>, \<^verbatim>\<open>x ~> 3\<close>, where another key is bound between the two bindings
  of \<open>x\<close>.
\<close>

theorem later_binding_replaces_earlier_witness:
  "parseLoop stod initial_state
     [mkToken TOKEN_INDENT [] 2 0, mkToken TOKEN_IDENTIFIER ''x'' 2 0,
      mkToken TOKEN_VINE_WHIP [] 2 0, mkToken TOKEN_NUMBER ''1'' 2 0,
      mkToken TOKEN_INDENT [] 3 0, mkToken TOKEN_IDENTIFIER ''x'' 3 0,
      mkToken TOKEN_VINE_WHIP [] 3 0, mkToken TOKEN_NUMBER ''2'' 3 0,
      mkToken TOKEN_EOF [] 3 0]
     = Inr \<lparr>heap = [[(''x'', INT_TYPE 2)]], stack = [\<lparr>ctx_map = 0, ctx_level = 0\<rparr>],
            currentLevel = 0\<rparr>
   \<and> assignKey stod
        \<lparr>heap = [[(''x'', INT_TYPE 1)]], stack = [\<lparr>ctx_map = 0, ctx_level = 0\<rparr>],
         currentLevel = 0\<rparr> 0 (mkToken TOKEN_IDENTIFIER ''x'' 3 0)
        [mkToken TOKEN_VINE_WHIP [] 3 0, mkToken TOKEN_NUMBER ''2'' 3 0, mkToken TOKEN_EOF [] 3 0]
     = Inr (\<lparr>heap = [[(''x'', INT_TYPE 2)]], stack = [\<lparr>ctx_map = 0, ctx_level = 0\<rparr>],
             currentLevel = 0\<rparr>, [mkToken TOKEN_EOF [] 3 0])
   \<and> (\<exists>v. map_of [(''x'', INT_TYPE 2)] ''x'' = Some v)
   \<and> openSection
        \<lparr>heap = [[(''a'', OBJECT 1)], [(''x'', INT_TYPE 2)]],
         stack = [\<lparr>ctx_map = 0, ctx_level = 0\<rparr>, \<lparr>ctx_map = 1, ctx_level = 1\<rparr>],
         currentLevel = 1\<rparr> 0 1
        [mkToken TOKEN_IDENTIFIER ''a'' 5 0, mkToken TOKEN_SECTION_CLOSE [] 5 1,
         mkToken TOKEN_EOF [] 5 0]
     = Inr (\<lparr>heap = [[(''a'', OBJECT 2)], [(''x'', INT_TYPE 2)], []],
             stack = [\<lparr>ctx_map = 0, ctx_level = 0\<rparr>, \<lparr>ctx_map = 2, ctx_level = 1\<rparr>],
             currentLevel = 1\<rparr>, [mkToken TOKEN_EOF [] 5 0])
   \<and> resolve [[(''a'', OBJECT 2)], [(''x'', INT_TYPE 2)], []] 0 (OBJECT 2) = DObject []
   \<and> map_sum id document (parse stod rebinding_input)
     = Inr (DObject [(''a'', DObject [(''y'', DInt 3)])])
   \<and> parseLoop stod
     \<lparr>heap = [[(''x'', INT_TYPE 1)]], stack = [\<lparr>ctx_map = 0, ctx_level = 0\<rparr>],
       currentLevel = 0\<rparr>
     [mkToken TOKEN_INDENT [] 3 0, mkToken TOKEN_IDENTIFIER ''y'' 3 0,
      mkToken TOKEN_VINE_WHIP [] 3 0, mkToken TOKEN_NUMBER ''2'' 3 0,
      mkToken TOKEN_INDENT [] 4 0, mkToken TOKEN_IDENTIFIER ''x'' 4 0,
      mkToken TOKEN_VINE_WHIP [] 4 0, mkToken TOKEN_NUMBER ''3'' 4 0,
      mkToken TOKEN_EOF [] 4 0]
     = Inr \<lparr>heap = [[(''x'', INT_TYPE 3), (''y'', INT_TYPE 2)]],
            stack = [\<lparr>ctx_map = 0, ctx_level = 0\<rparr>], currentLevel = 0\<rparr>
   \<and> map_sum id (\<lambda>s. (length (stack s), currentLevel s))
       (parseLoop stod initial_state
     [mkToken TOKEN_INDENT [] 3 0, mkToken TOKEN_IDENTIFIER ''y'' 3 0,
      mkToken TOKEN_VINE_WHIP [] 3 0, mkToken TOKEN_NUMBER ''2'' 3 0,
      mkToken TOKEN_INDENT [] 4 0, mkToken TOKEN_IDENTIFIER ''x'' 4 0,
      mkToken TOKEN_VINE_WHIP [] 4 0, mkToken TOKEN_NUMBER ''3'' 4 0,
      mkToken TOKEN_EOF [] 4 0])
     = Inr (1, 0)
   \<and> map_sum id (\<lambda>s. (length (stack s), currentLevel s))
       (parseLoop stod initial_state
          (mkToken TOKEN_INDENT [] 2 0 # mkToken TOKEN_IDENTIFIER ''x'' 2 0
           # mkToken TOKEN_VINE_WHIP [] 2 0 # [mkToken TOKEN_NUMBER ''1'' 2 0] @
     [mkToken TOKEN_INDENT [] 3 0, mkToken TOKEN_IDENTIFIER ''y'' 3 0,
      mkToken TOKEN_VINE_WHIP [] 3 0, mkToken TOKEN_NUMBER ''2'' 3 0,
      mkToken TOKEN_INDENT [] 4 0, mkToken TOKEN_IDENTIFIER ''x'' 4 0,
      mkToken TOKEN_VINE_WHIP [] 4 0, mkToken TOKEN_NUMBER ''3'' 4 0,
      mkToken TOKEN_EOF [] 4 0]))
     = Inr (1, 0)
   \<and> (\<exists>st'. assignKey stod
        \<lparr>heap = [[(''x'', INT_TYPE 1), (''y'', INT_TYPE 2)]],
         stack = [\<lparr>ctx_map = 0, ctx_level = 0\<rparr>], currentLevel = 0\<rparr>
        0 (mkToken TOKEN_IDENTIFIER ''x'' 4 0)
        (mkToken TOKEN_VINE_WHIP [] 4 0
         # [mkToken TOKEN_NUMBER ''3'' 4 0, mkToken TOKEN_EOF [] 4 0])
       = Inr (st', [mkToken TOKEN_EOF [] 4 0]))
   \<and> (\<exists>st'. openSection
        \<lparr>heap = [[(''a'', OBJECT 1)], [(''x'', INT_TYPE 2)]],
         stack = [\<lparr>ctx_map = 0, ctx_level = 0\<rparr>, \<lparr>ctx_map = 1, ctx_level = 1\<rparr>],
         currentLevel = 1\<rparr> 0 1
        (mkToken TOKEN_IDENTIFIER ''a'' 5 0 # mkToken TOKEN_SECTION_CLOSE [] 5 1
         # [mkToken TOKEN_EOF [] 5 0])
       = Inr (st', [mkToken TOKEN_EOF [] 5 0]))
   \<and> parse stod ''BULBA!\<newline>x ~> 1\<newline>y ~> 2\<newline>x ~> 3''
     = Inr ([(''x'', INT_TYPE 3), (''y'', INT_TYPE 2)],
            [[(''x'', INT_TYPE 3), (''y'', INT_TYPE 2)]])"
proof -
  note inst = later_binding_replaces_earlier [where sd = stod]
  have pn: "parseNumber stod ''1'' = Inr (INT_TYPE 1)"
    by code_simp
  have second: "parseLoop stod initial_state
     [mkToken TOKEN_INDENT [] 3 0, mkToken TOKEN_IDENTIFIER ''x'' 3 0,
      mkToken TOKEN_VINE_WHIP [] 3 0, mkToken TOKEN_NUMBER ''2'' 3 0,
      mkToken TOKEN_EOF [] 3 0]
     = Inr \<lparr>heap = [[(''x'', INT_TYPE 2)]], stack = [\<lparr>ctx_map = 0, ctx_level = 0\<rparr>],
            currentLevel = 0\<rparr>"
    by code_simp
  have doc: "map_sum id document (parse stod rebinding_input)
     = Inr (DObject [(''a'', DObject [(''y'', DInt 3)])])"
    by code_simp
  have first: "parseLoop stod initial_state
     (mkToken TOKEN_INDENT [] 2 0 # mkToken TOKEN_IDENTIFIER ''x'' 2 0
      # mkToken TOKEN_VINE_WHIP [] 2 0 # [mkToken TOKEN_NUMBER ''1'' 2 0]
      @ mkToken TOKEN_INDENT [] 3 0 # mkToken TOKEN_IDENTIFIER ''x'' 3 0
      # [mkToken TOKEN_VINE_WHIP [] 3 0, mkToken TOKEN_NUMBER ''2'' 3 0,
         mkToken TOKEN_EOF [] 3 0])
     = parseLoop stod initial_state
     (mkToken TOKEN_INDENT [] 3 0 # mkToken TOKEN_IDENTIFIER ''x'' 3 0
      # [mkToken TOKEN_VINE_WHIP [] 3 0, mkToken TOKEN_NUMBER ''2'' 3 0,
         mkToken TOKEN_EOF [] 3 0])"
    by (rule inst [THEN conjunct1, rule_format, where vA = "INT_TYPE 1"])
       (use pn in \<open>simp add: mkToken_def\<close>)
  have ak: "assignKey stod
        \<lparr>heap = [[(''x'', INT_TYPE 1)]], stack = [\<lparr>ctx_map = 0, ctx_level = 0\<rparr>],
         currentLevel = 0\<rparr> 0 (mkToken TOKEN_IDENTIFIER ''x'' 3 0)
        [mkToken TOKEN_VINE_WHIP [] 3 0, mkToken TOKEN_NUMBER ''2'' 3 0, mkToken TOKEN_EOF [] 3 0]
     = Inr (\<lparr>heap = [[(''x'', INT_TYPE 2)]], stack = [\<lparr>ctx_map = 0, ctx_level = 0\<rparr>],
             currentLevel = 0\<rparr>, [mkToken TOKEN_EOF [] 3 0])"
    by code_simp
  from inst [THEN conjunct2, THEN conjunct1, rule_format, OF conjI, OF ak]
  have bound: "\<exists>v. map_of [(''x'', INT_TYPE 2)] ''x'' = Some v"
    by auto
  have os: "openSection
        \<lparr>heap = [[(''a'', OBJECT 1)], [(''x'', INT_TYPE 2)]],
         stack = [\<lparr>ctx_map = 0, ctx_level = 0\<rparr>, \<lparr>ctx_map = 1, ctx_level = 1\<rparr>],
         currentLevel = 1\<rparr> 0 1
        [mkToken TOKEN_IDENTIFIER ''a'' 5 0, mkToken TOKEN_SECTION_CLOSE [] 5 1,
         mkToken TOKEN_EOF [] 5 0]
     = Inr (\<lparr>heap = [[(''a'', OBJECT 2)], [(''x'', INT_TYPE 2)], []],
             stack = [\<lparr>ctx_map = 0, ctx_level = 0\<rparr>, \<lparr>ctx_map = 2, ctx_level = 1\<rparr>],
             currentLevel = 1\<rparr>, [mkToken TOKEN_EOF [] 5 0])"
    by code_simp
  from inst [THEN conjunct2, THEN conjunct2, THEN conjunct1, rule_format, OF conjI, OF os]
  have fresh: "resolve [[(''a'', OBJECT 2)], [(''x'', INT_TYPE 2)], []] 0 (OBJECT 2) = DObject []"
    by simp
  have run1: "parseLoop stod
     \<lparr>heap = [[(''x'', INT_TYPE 1)]], stack = [\<lparr>ctx_map = 0, ctx_level = 0\<rparr>],
       currentLevel = 0\<rparr>
     [mkToken TOKEN_INDENT [] 3 0, mkToken TOKEN_IDENTIFIER ''y'' 3 0,
      mkToken TOKEN_VINE_WHIP [] 3 0, mkToken TOKEN_NUMBER ''2'' 3 0,
      mkToken TOKEN_INDENT [] 4 0, mkToken TOKEN_IDENTIFIER ''x'' 4 0,
      mkToken TOKEN_VINE_WHIP [] 4 0, mkToken TOKEN_NUMBER ''3'' 4 0,
      mkToken TOKEN_EOF [] 4 0]
     = Inr \<lparr>heap = [[(''x'', INT_TYPE 3), (''y'', INT_TYPE 2)]],
            stack = [\<lparr>ctx_map = 0, ctx_level = 0\<rparr>], currentLevel = 0\<rparr>"
    by code_simp
  from inst [THEN conjunct2, THEN conjunct2, THEN conjunct2, THEN conjunct2, THEN conjunct2, THEN conjunct1, rule_format, where st = initial_state
      and ?st2.0 = "\<lparr>heap = [[(''x'', INT_TYPE 1)]], stack = [\<lparr>ctx_map = 0, ctx_level = 0\<rparr>],
       currentLevel = 0\<rparr>"
      and ts = "[mkToken TOKEN_INDENT [] 3 0, mkToken TOKEN_IDENTIFIER ''y'' 3 0,
      mkToken TOKEN_VINE_WHIP [] 3 0, mkToken TOKEN_NUMBER ''2'' 3 0,
      mkToken TOKEN_INDENT [] 4 0, mkToken TOKEN_IDENTIFIER ''x'' 4 0,
      mkToken TOKEN_VINE_WHIP [] 4 0, mkToken TOKEN_NUMBER ''3'' 4 0,
      mkToken TOKEN_EOF [] 4 0]"]
  have indep: "map_sum id (\<lambda>s. (length (stack s), currentLevel s))
       (parseLoop stod initial_state
     [mkToken TOKEN_INDENT [] 3 0, mkToken TOKEN_IDENTIFIER ''y'' 3 0,
      mkToken TOKEN_VINE_WHIP [] 3 0, mkToken TOKEN_NUMBER ''2'' 3 0,
      mkToken TOKEN_INDENT [] 4 0, mkToken TOKEN_IDENTIFIER ''x'' 4 0,
      mkToken TOKEN_VINE_WHIP [] 4 0, mkToken TOKEN_NUMBER ''3'' 4 0,
      mkToken TOKEN_EOF [] 4 0])
     = Inr (1, 0)"
    by (simp add: run1 initial_state_def)
  have pv1: "parseValueFromTokens stod ([mkToken TOKEN_NUMBER ''1'' 2 0] @
     [mkToken TOKEN_INDENT [] 3 0, mkToken TOKEN_IDENTIFIER ''y'' 3 0,
      mkToken TOKEN_VINE_WHIP [] 3 0, mkToken TOKEN_NUMBER ''2'' 3 0,
      mkToken TOKEN_INDENT [] 4 0, mkToken TOKEN_IDENTIFIER ''x'' 4 0,
      mkToken TOKEN_VINE_WHIP [] 4 0, mkToken TOKEN_NUMBER ''3'' 4 0,
      mkToken TOKEN_EOF [] 4 0])
     = Inr (INT_TYPE 1,
     [mkToken TOKEN_INDENT [] 3 0, mkToken TOKEN_IDENTIFIER ''y'' 3 0,
      mkToken TOKEN_VINE_WHIP [] 3 0, mkToken TOKEN_NUMBER ''2'' 3 0,
      mkToken TOKEN_INDENT [] 4 0, mkToken TOKEN_IDENTIFIER ''x'' 4 0,
      mkToken TOKEN_VINE_WHIP [] 4 0, mkToken TOKEN_NUMBER ''3'' 4 0,
      mkToken TOKEN_EOF [] 4 0])"
    by code_simp
  have "map_sum id (\<lambda>s. (length (stack s), currentLevel s))
       (parseLoop stod initial_state
          (mkToken TOKEN_INDENT [] 2 0 # mkToken TOKEN_IDENTIFIER ''x'' 2 0
           # mkToken TOKEN_VINE_WHIP [] 2 0 # [mkToken TOKEN_NUMBER ''1'' 2 0] @
     [mkToken TOKEN_INDENT [] 3 0, mkToken TOKEN_IDENTIFIER ''y'' 3 0,
      mkToken TOKEN_VINE_WHIP [] 3 0, mkToken TOKEN_NUMBER ''2'' 3 0,
      mkToken TOKEN_INDENT [] 4 0, mkToken TOKEN_IDENTIFIER ''x'' 4 0,
      mkToken TOKEN_VINE_WHIP [] 4 0, mkToken TOKEN_NUMBER ''3'' 4 0,
      mkToken TOKEN_EOF [] 4 0]))
     = map_sum id (\<lambda>s. (length (stack s), currentLevel s))
       (parseLoop stod initial_state
     [mkToken TOKEN_INDENT [] 3 0, mkToken TOKEN_IDENTIFIER ''y'' 3 0,
      mkToken TOKEN_VINE_WHIP [] 3 0, mkToken TOKEN_NUMBER ''2'' 3 0,
      mkToken TOKEN_INDENT [] 4 0, mkToken TOKEN_IDENTIFIER ''x'' 4 0,
      mkToken TOKEN_VINE_WHIP [] 4 0, mkToken TOKEN_NUMBER ''3'' 4 0,
      mkToken TOKEN_EOF [] 4 0])"
    by (rule inst [THEN conjunct2, THEN conjunct2, THEN conjunct2, THEN conjunct2, THEN conjunct2, THEN conjunct2, THEN conjunct1, rule_format, where vA = "INT_TYPE 1"])
       (use pv1 in \<open>simp add: mkToken_def initial_state_def\<close>)
  with indep have skip: "map_sum id (\<lambda>s. (length (stack s), currentLevel s))
       (parseLoop stod initial_state
          (mkToken TOKEN_INDENT [] 2 0 # mkToken TOKEN_IDENTIFIER ''x'' 2 0
           # mkToken TOKEN_VINE_WHIP [] 2 0 # [mkToken TOKEN_NUMBER ''1'' 2 0] @
     [mkToken TOKEN_INDENT [] 3 0, mkToken TOKEN_IDENTIFIER ''y'' 3 0,
      mkToken TOKEN_VINE_WHIP [] 3 0, mkToken TOKEN_NUMBER ''2'' 3 0,
      mkToken TOKEN_INDENT [] 4 0, mkToken TOKEN_IDENTIFIER ''x'' 4 0,
      mkToken TOKEN_VINE_WHIP [] 4 0, mkToken TOKEN_NUMBER ''3'' 4 0,
      mkToken TOKEN_EOF [] 4 0]))
     = Inr (1, 0)"
    by simp
  have pv3: "parseValueFromTokens stod [mkToken TOKEN_NUMBER ''3'' 4 0, mkToken TOKEN_EOF [] 4 0]
     = Inr (INT_TYPE 3, [mkToken TOKEN_EOF [] 4 0])"
    by code_simp
  have again: "(\<exists>st'. assignKey stod
        \<lparr>heap = [[(''x'', INT_TYPE 1), (''y'', INT_TYPE 2)]],
         stack = [\<lparr>ctx_map = 0, ctx_level = 0\<rparr>], currentLevel = 0\<rparr>
        0 (mkToken TOKEN_IDENTIFIER ''x'' 4 0)
        (mkToken TOKEN_VINE_WHIP [] 4 0
         # [mkToken TOKEN_NUMBER ''3'' 4 0, mkToken TOKEN_EOF [] 4 0])
       = Inr (st', [mkToken TOKEN_EOF [] 4 0]))"
    by (rule inst [THEN conjunct2, THEN conjunct2, THEN conjunct2, THEN conjunct2, THEN conjunct2, THEN conjunct2, THEN conjunct2, THEN conjunct1, rule_format, where v = "INT_TYPE 3"])
       (use pv3 in \<open>simp add: mkToken_def\<close>)
  have reopen: "(\<exists>st'. openSection
        \<lparr>heap = [[(''a'', OBJECT 1)], [(''x'', INT_TYPE 2)]],
         stack = [\<lparr>ctx_map = 0, ctx_level = 0\<rparr>, \<lparr>ctx_map = 1, ctx_level = 1\<rparr>],
         currentLevel = 1\<rparr> 0 1
        (mkToken TOKEN_IDENTIFIER ''a'' 5 0 # mkToken TOKEN_SECTION_CLOSE [] 5 1
         # [mkToken TOKEN_EOF [] 5 0])
       = Inr (st', [mkToken TOKEN_EOF [] 5 0]))"
    by (rule inst [THEN conjunct2, THEN conjunct2, THEN conjunct2, THEN conjunct2, THEN conjunct2, THEN conjunct2, THEN conjunct2, THEN conjunct2, rule_format])
       (simp add: mkToken_def)
  have apart: "parse stod ''BULBA!\<newline>x ~> 1\<newline>y ~> 2\<newline>x ~> 3''
     = Inr ([(''x'', INT_TYPE 3), (''y'', INT_TYPE 2)],
            [[(''x'', INT_TYPE 3), (''y'', INT_TYPE 2)]])"
    by code_simp
  from first second ak bound os fresh doc have old:
    "parseLoop stod initial_state
     [mkToken TOKEN_INDENT [] 2 0, mkToken TOKEN_IDENTIFIER ''x'' 2 0,
      mkToken TOKEN_VINE_WHIP [] 2 0, mkToken TOKEN_NUMBER ''1'' 2 0,
      mkToken TOKEN_INDENT [] 3 0, mkToken TOKEN_IDENTIFIER ''x'' 3 0,
      mkToken TOKEN_VINE_WHIP [] 3 0, mkToken TOKEN_NUMBER ''2'' 3 0,
      mkToken TOKEN_EOF [] 3 0]
     = Inr \<lparr>heap = [[(''x'', INT_TYPE 2)]], stack = [\<lparr>ctx_map = 0, ctx_level = 0\<rparr>],
            currentLevel = 0\<rparr>"
    by simp
  from old ak bound os fresh doc run1 indep skip again reopen apart show ?thesis
    by (intro conjI)
qed

section \<open>Number literals\<close>

text \<open>
  Claim C10.  In every token stream that \<open>tokenize\<close> returns, the literal of a number token is
  a text that the integer conversion or the floating-point conversion consumed entirely, and so
  the number case of the parser yields a value for it: its type error is not reachable.  This
  holds for every floating-point conversion \<open>sd\<close>.
\<close>

theorem number_literals_reparse:
  assumes "tokenize sd content = Inr toks" and "t \<in> set toks" and "type t = TOKEN_NUMBER"
  shows "(intConsumesAll (literal t) \<or> floatConsumesAll sd (literal t))
         \<and> (\<exists>v. parseNumber sd (literal t) = Inr v)"
proof -
  from assms(1) have "lexed_token sd 1 t"
  proof (cases rule: tokenize_cases)
    case empty
    with assms(2,3) show ?thesis by (simp add: mkToken_def)
  next
    case (header lineStr ss' body)
    with assms(2,3) have "t \<in> set body" by (auto simp: mkToken_def)
    with header(3) show ?thesis by (auto dest: tokenizeLoop_tokens)
  qed
  with assms(3) have "intConsumesAll (literal t) \<or> floatConsumesAll sd (literal t)"
    by (simp add: lexed_token_def)
  then show ?thesis by (simp add: parseNumber_succeeds)
qed

text \<open>
  Witness for C10: the number token of \<^verbatim>\<open>version ~> 1.5\<close>, which the integer conversion does not
  consume entirely and the floating-point conversion does.
\<close>

theorem number_literals_reparse_witness:
  "tokenize stod ''BULBA!\<newline>version ~> 1.5'' =
     Inr [mkToken TOKEN_HEADER ''BULBA!'' 1 0, mkToken TOKEN_INDENT [] 2 0,
          mkToken TOKEN_IDENTIFIER ''version'' 2 0, mkToken TOKEN_VINE_WHIP [] 2 0,
          mkToken TOKEN_NUMBER ''1.5'' 2 0, mkToken TOKEN_EOF [] 2 0]
   \<and> (intConsumesAll ''1.5'' \<or> floatConsumesAll stod ''1.5'')
   \<and> (\<exists>v. parseNumber stod ''1.5'' = Inr v)"
proof -
  have tk: "tokenize stod ''BULBA!\<newline>version ~> 1.5'' =
     Inr [mkToken TOKEN_HEADER ''BULBA!'' 1 0, mkToken TOKEN_INDENT [] 2 0,
          mkToken TOKEN_IDENTIFIER ''version'' 2 0, mkToken TOKEN_VINE_WHIP [] 2 0,
          mkToken TOKEN_NUMBER ''1.5'' 2 0, mkToken TOKEN_EOF [] 2 0]"
    by code_simp
  from number_literals_reparse [OF tk, of "mkToken TOKEN_NUMBER ''1.5'' 2 0"] tk
  show ?thesis by (simp add: mkToken_def)
qed

end
